theory Spec2Isabelle
  imports Complex_Main
begin

section \<open>Data model (types.ts)\<close>

text \<open>
  \<^verbatim>\<open>BoundingBox\<close> and \<^verbatim>\<open>IndexLink\<close> are TypeScript interfaces. Their declared field
  types (\<^verbatim>\<open>string\<close>, \<^verbatim>\<open>number\<close>) are not checked at run time: the detection service copies
  whatever the parsed JSON holds into the fields. The records are therefore polymorphic
  in the field types. The export service reads them at the declared types: a label
  that is a string, and a target page and coordinates that are numbers; nothing makes
  the target page an integer. JavaScript numbers are modelled as reals (rounding, NaN and infinities
  are outside the model). A JavaScript string is a sequence of UTF-16 code units; it
  is modelled as the list of their values, and \<open>codes\<close> turns an ASCII literal into
  such a list. The field \<^verbatim>\<open>id\<close> is \<open>id'\<close> here.
\<close>

type_synonym jsstring = "nat list"

definition codes :: "string \<Rightarrow> jsstring" where
  "codes s = map of_char s"

record 'n BoundingBox =
  ymin :: 'n
  xmin :: 'n
  ymax :: 'n
  xmax :: 'n

record ('l, 'p, 'n) IndexLink =
  id' :: jsstring
  label :: 'l
  targetPage :: 'p
  box :: "'n BoundingBox"

type_synonym TypedLink = "(jsstring, real, real) IndexLink"

section \<open>The PDF document as pdfExportService.ts sees it\<close>

text \<open>
  The export works on a pdf-lib document: an object context that hands out fresh
  object numbers (\<^verbatim>\<open>context.register\<close> increments \<^verbatim>\<open>largestObjectNumber\<close> and stores the
  object under the new number), and the list of pages. Of a page the export reads the
  size, the page's own reference and the \<^verbatim>\<open>Annots\<close> entry, which is absent or an array
  of references. Of the context only the link annotations registered by the export are
  tracked; the other objects of the document are never read by the export.
  Each page owns its annotation array (no two pages share one array object).
  The context \<^verbatim>\<open>pdfDoc.context\<close> is the field \<open>pdf_context\<close>.
\<close>

record Action =
  action_Type :: string
  action_S :: string
  action_D :: "nat \<times> string"

record LinkAnnot =
  annot_Type :: string
  Subtype :: string
  Rect :: "real list"
  Border :: "real list"
  annot_A :: Action

record PDFContext =
  largestObjectNumber :: nat
  indirectObjects :: "nat \<rightharpoonup> LinkAnnot"

record PDFPage =
  width :: real
  height :: real
  ref :: nat
  Annots :: "nat list option"

record PDFDocument =
  pdf_context :: PDFContext
  pages :: "PDFPage list"

datatype error = LoadError | TypeError | MissingApiKey | NetworkError

definition register :: "PDFContext \<Rightarrow> LinkAnnot \<Rightarrow> nat \<times> PDFContext" where
  "register c obj =
     (let r = largestObjectNumber c + 1
      in (r, c\<lparr>largestObjectNumber := r, indirectObjects := (indirectObjects c)(r \<mapsto> obj)\<rparr>))"

text \<open>The annotation array of a page as a list: empty when the page has none.\<close>

definition annotsOf :: "PDFPage \<Rightarrow> nat list" where
  "annotsOf page = (case Annots page of None \<Rightarrow> [] | Some a \<Rightarrow> a)"

section \<open>exportModifiedPdf (pdfExportService.ts)\<close>

text \<open>
  \<^verbatim>\<open>pages[x]\<close> for a number \<open>x\<close>: the element when \<open>x\<close> is an integer index of the array,
  \<^verbatim>\<open>undefined\<close> (here \<open>None\<close>) otherwise, also for a number between two indices.
\<close>

definition elementAt :: "'a list \<Rightarrow> real \<Rightarrow> 'a option" where
  "elementAt xs x =
     (if x = of_int \<lfloor>x\<rfloor> \<and> 0 \<le> x \<and> x < real (length xs) then Some (xs ! nat \<lfloor>x\<rfloor>) else None)"

text \<open>
  The body of the inner loop (lines 23 to 68), for one link of the page with index
  \<open>pageIndex\<close>, whose size \<open>w\<close>, \<open>h\<close> was read before the loop. Reading \<^verbatim>\<open>.ref\<close> of
  \<^verbatim>\<open>pages[targetPageIndex]\<close> (line 49) raises a TypeError when that element is
  \<^verbatim>\<open>undefined\<close>; this happens while the annotation is built, before anything is
  registered.
\<close>

definition processLink ::
  "nat \<Rightarrow> real \<Rightarrow> real \<Rightarrow> PDFDocument \<Rightarrow> TypedLink \<Rightarrow> error + PDFDocument" where
  "processLink pageIndex w h pdfDoc link =
     (let x_min = (xmin (box link) / 1000) * w;
          x_max = (xmax (box link) / 1000) * w;
          y_min = h - ((ymax (box link) / 1000) * h);
          y_max = h - ((ymin (box link) / 1000) * h);
          targetPageIndex = targetPage link - 1
      in if targetPageIndex \<ge> 0 \<and> targetPageIndex < real (length (pages pdfDoc)) then
           (let rect = [x_min, y_min, x_max, y_max]
            in (case elementAt (pages pdfDoc) targetPageIndex of
                  None \<Rightarrow> Inl TypeError
                | Some target \<Rightarrow>
                    (let linkAnnot = \<lparr>annot_Type = ''Annot'', Subtype = ''Link'', Rect = rect,
                                      Border = [0, 0, 0],
                                      annot_A = \<lparr>action_Type = ''Action'', action_S = ''GoTo'',
                                                 action_D = (ref target, ''Fit'')\<rparr>\<rparr>;
                         (linkAnnotRef, ctx') = register (pdf_context pdfDoc) linkAnnot;
                         page = pages pdfDoc ! pageIndex;
                         annots = (case Annots page of None \<Rightarrow> [] | Some a \<Rightarrow> a)
                     in Inr (pdfDoc\<lparr>pdf_context := ctx',
                               pages := (pages pdfDoc)[pageIndex :=
                                  page\<lparr>Annots := Some (annots @ [linkAnnotRef])\<rparr>]\<rparr>))))
         else Inr pdfDoc)"

fun forLinks ::
  "nat \<Rightarrow> real \<Rightarrow> real \<Rightarrow> PDFDocument \<Rightarrow> TypedLink list \<Rightarrow> error + PDFDocument" where
  "forLinks pageIndex w h pdfDoc [] = Inr pdfDoc"
| "forLinks pageIndex w h pdfDoc (link # links) =
     (case processLink pageIndex w h pdfDoc link of
        Inl e \<Rightarrow> Inl e
      | Inr pdfDoc' \<Rightarrow> forLinks pageIndex w h pdfDoc' links)"

text \<open>
  The outer loop over \<^verbatim>\<open>Object.entries(analyses)\<close>: the argument is the list of entries in
  enumeration order, each key already read by \<^verbatim>\<open>parseInt\<close> (the keys are the integer page
  numbers under which the application stored the results).
\<close>

fun forPages :: "PDFDocument \<Rightarrow> (int \<times> TypedLink list) list \<Rightarrow> error + PDFDocument" where
  "forPages pdfDoc [] = Inr pdfDoc"
| "forPages pdfDoc ((pageNum, links) # rest) =
     (let pageIndex = pageNum - 1
      in if pageIndex < 0 \<or> pageIndex \<ge> int (length (pages pdfDoc)) then forPages pdfDoc rest
         else (let page = pages pdfDoc ! nat pageIndex
               in (case forLinks (nat pageIndex) (width page) (height page) pdfDoc links of
                     Inl e \<Rightarrow> Inl e
                   | Inr pdfDoc' \<Rightarrow> forPages pdfDoc' rest)))"

text \<open>
  \<^verbatim>\<open>PDFDocument.load\<close> raises on a file that is not a PDF; its outcome is the first
  argument. Nothing in the function catches an error. Serialisation of the resulting
  document is pdf-lib's; the model returns the document that is saved.
\<close>

definition exportModifiedPdf ::
  "error + PDFDocument \<Rightarrow> (int \<times> TypedLink list) list \<Rightarrow> error + PDFDocument" where
  "exportModifiedPdf loaded analyses =
     (case loaded of Inl e \<Rightarrow> Inl e | Inr pdfDoc \<Rightarrow> forPages pdfDoc analyses)"

subsection \<open>What the export is compared with\<close>

text \<open>
  A page number of a document with \<open>n\<close> pages, as an integer key and as a JavaScript
  number.
\<close>

definition inRange :: "nat \<Rightarrow> int \<Rightarrow> bool" where
  "inRange n p = (1 \<le> p \<and> p \<le> int n)"

definition isPage :: "nat \<Rightarrow> real \<Rightarrow> bool" where
  "isPage n p = (p = of_int \<lfloor>p\<rfloor> \<and> 1 \<le> p \<and> p \<le> real n)"

text \<open>
  The rectangle in the words of the specification: for a page of width \<open>W\<close> and height
  \<open>H\<close>, \<open>x_left = (xmin/1000) * W\<close>, \<open>x_right = (xmax/1000) * W\<close>,
  \<open>y_bottom = H - (ymax/1000) * H\<close>, \<open>y_top = H - (ymin/1000) * H\<close>.
\<close>

definition specRect :: "real \<Rightarrow> real \<Rightarrow> real BoundingBox \<Rightarrow> real list" where
  "specRect W H b =
     (let x_left = (xmin b / 1000) * W; x_right = (xmax b / 1000) * W;
          y_bottom = H - (ymax b / 1000) * H; y_top = H - (ymin b / 1000) * H
      in [x_left, y_bottom, x_right, y_top])"

text \<open>
  The entries placed on the page with index \<open>i\<close> of a document with \<open>n\<close> pages: those
  listed under the page number \<open>i + 1\<close> whose target page is a page of the document, in
  the order of the analyses.
\<close>

definition placedOn :: "nat \<Rightarrow> nat \<Rightarrow> (int \<times> TypedLink list) list \<Rightarrow> TypedLink list" where
  "placedOn n i analyses =
     concat (map (\<lambda>(pageNum, links).
        if pageNum - 1 = int i then filter (\<lambda>l. isPage n (targetPage l)) links else []) analyses)"

text \<open>
  \<open>appendsTo d d' new\<close>: the document \<open>d'\<close> is \<open>d\<close> with annotations appended. The pages
  keep their number, size and reference, the objects registered in \<open>d\<close> are untouched,
  and the annotation array of page \<open>i\<close> is the old one followed by fresh references
  whose rectangles are \<open>new i\<close>.
\<close>

definition appendsTo :: "PDFDocument \<Rightarrow> PDFDocument \<Rightarrow> (nat \<Rightarrow> real list list) \<Rightarrow> bool" where
  "appendsTo d d' new =
     (length (pages d') = length (pages d) \<and>
      largestObjectNumber (pdf_context d) \<le> largestObjectNumber (pdf_context d') \<and>
      (\<forall>r \<le> largestObjectNumber (pdf_context d).
          indirectObjects (pdf_context d') r = indirectObjects (pdf_context d) r) \<and>
      (\<forall>i < length (pages d).
          width (pages d' ! i) = width (pages d ! i) \<and>
          height (pages d' ! i) = height (pages d ! i) \<and>
          ref (pages d' ! i) = ref (pages d ! i) \<and>
          (\<exists>rs. annotsOf (pages d' ! i) = annotsOf (pages d ! i) @ rs \<and>
                (\<forall>r \<in> set rs. largestObjectNumber (pdf_context d) < r \<and>
                                r \<le> largestObjectNumber (pdf_context d')) \<and>
                map (\<lambda>r. map_option Rect (indirectObjects (pdf_context d') r)) rs = map Some (new i))))"

section \<open>getImagesForPages (pdfImageService.ts)\<close>

text \<open>
  What pdf.js does with a page is outside the repository: for each page number the
  document says whether rendering yields a JPEG (the base64 text after the comma of the
  data URL), the canvas gives no 2d context, or \<^verbatim>\<open>getPage\<close> or \<^verbatim>\<open>render\<close> raises.
\<close>

datatype RenderOutcome = Rendered jsstring | NoContext | RenderFails

record PdfJsDocument =
  numPages :: nat
  renderPage :: "int \<Rightarrow> RenderOutcome"

fun renderLoop :: "PdfJsDocument \<Rightarrow> (int \<rightharpoonup> jsstring) \<Rightarrow> int list \<Rightarrow> (int \<rightharpoonup> jsstring)" where
  "renderLoop pdfDoc results [] = results"
| "renderLoop pdfDoc results (pageNum # rest) =
     (if pageNum < 1 \<or> pageNum > int (numPages pdfDoc) then renderLoop pdfDoc results rest
      else (case renderPage pdfDoc pageNum of
              Rendered jpeg \<Rightarrow> renderLoop pdfDoc (results(pageNum \<mapsto> jpeg)) rest
            | NoContext \<Rightarrow> renderLoop pdfDoc results rest
            | RenderFails \<Rightarrow> renderLoop pdfDoc results rest))"

text \<open>
  Opening the file (\<^verbatim>\<open>loadingTask.promise\<close>) is awaited outside the \<^verbatim>\<open>try\<close>: a file that
  pdf.js cannot open makes the call raise. The first argument is the outcome of opening.
\<close>

definition getImagesForPages ::
  "error + PdfJsDocument \<Rightarrow> int list \<Rightarrow> error + (int \<rightharpoonup> jsstring)" where
  "getImagesForPages loaded pageNumbers =
     (case loaded of Inl e \<Rightarrow> Inl e | Inr pdfDoc \<Rightarrow> Inr (renderLoop pdfDoc Map.empty pageNumbers))"

section \<open>The detection client (geminiService.ts)\<close>

subsection \<open>JavaScript values\<close>

text \<open>
  \<^verbatim>\<open>JSON.parse\<close> yields a value of any shape, and the service copies fields of it
  unchecked. \<open>getProp v k\<close> reads the own property \<open>k\<close> of a value that is neither \<^verbatim>\<open>null\<close>
  nor \<^verbatim>\<open>undefined\<close> (on these two a property read raises a TypeError); properties
  inherited from a prototype are not modelled.
\<close>

datatype jsvalue =
    JUndefined
  | JNull
  | JBool bool
  | JNumber real
  | JString jsstring
  | JArray "jsvalue list"
  | JObject "(jsstring \<times> jsvalue) list"

type_synonym RawLink = "(jsvalue, jsvalue, jsvalue) IndexLink"

fun truthy :: "jsvalue \<Rightarrow> bool" where
  "truthy JUndefined = False"
| "truthy JNull = False"
| "truthy (JBool b) = b"
| "truthy (JNumber x) = (x \<noteq> 0)"
| "truthy (JString s) = (s \<noteq> [])"
| "truthy (JArray xs) = True"
| "truthy (JObject kvs) = True"

fun isArray :: "jsvalue \<Rightarrow> bool" where
  "isArray (JArray xs) = True"
| "isArray v = False"

fun elements :: "jsvalue \<Rightarrow> jsvalue list" where
  "elements (JArray xs) = xs"
| "elements v = []"

fun nullish :: "jsvalue \<Rightarrow> bool" where
  "nullish JUndefined = True"
| "nullish JNull = True"
| "nullish v = False"

fun getProp :: "jsvalue \<Rightarrow> jsstring \<Rightarrow> jsvalue" where
  "getProp (JObject kvs) k = (case map_of kvs k of None \<Rightarrow> JUndefined | Some v \<Rightarrow> v)"
| "getProp v k = JUndefined"

subsection \<open>parseResponseJSON\<close>

text \<open>
  The white space of \<^verbatim>\<open>String.prototype.trim\<close> and of the class \<^verbatim>\<open>\s\<close>: tab, line feed,
  vertical tab, form feed, carriage return, space, no-break space, U+1680,
  U+2000 to U+200A, the line and paragraph separators, U+202F, U+205F, U+3000 and
  U+FEFF.
\<close>

definition isWhiteSpace :: "nat \<Rightarrow> bool" where
  "isWhiteSpace c =
     (c \<in> {9, 10, 11, 12, 13, 32, 160, 5760, 8232, 8233, 8239, 8287, 12288, 65279}
      \<or> (8192 \<le> c \<and> c \<le> 8202))"

definition trim :: "jsstring \<Rightarrow> jsstring" where
  "trim s = rev (dropWhile isWhiteSpace (rev (dropWhile isWhiteSpace s)))"

text \<open>\<^verbatim>\<open>json\<close> at the start of a text, in any case (the flag \<^verbatim>\<open>i\<close>).\<close>

definition startsWithJson :: "jsstring \<Rightarrow> bool" where
  "startsWithJson s =
     (case s of
        a # b # c # d # rest \<Rightarrow> a \<in> {106, 74} \<and> b \<in> {115, 83} \<and> c \<in> {111, 79} \<and> d \<in> {110, 78}
      | _ \<Rightarrow> False)"

text \<open>Three back-ticks at the start, and at the end, of a text.\<close>

definition startsWithFence :: "jsstring \<Rightarrow> bool" where
  "startsWithFence s = (take 3 s = [96, 96, 96])"

definition endsWithFence :: "jsstring \<Rightarrow> bool" where
  "endsWithFence s = (3 \<le> length s \<and> drop (length s - 3) s = [96, 96, 96])"

text \<open>
  \<^verbatim>\<open>.replace(/^```(?:json)?\s*/i, "")\<close>: at the start of the text, three back-ticks, then
  \<^verbatim>\<open>json\<close> when it is there, then all the white space that follows are removed.
\<close>

definition stripOpeningFence :: "jsstring \<Rightarrow> jsstring" where
  "stripOpeningFence s =
     (if startsWithFence s then
        (let r = drop 3 s;
             r' = (if startsWithJson r then drop 4 r else r)
         in dropWhile isWhiteSpace r')
      else s)"

text \<open>
  \<^verbatim>\<open>.replace(/\s*```$/, "")\<close>: three back-ticks at the very end of the text are removed
  together with all the white space before them.
\<close>

definition stripClosingFence :: "jsstring \<Rightarrow> jsstring" where
  "stripClosingFence s =
     (if endsWithFence s then rev (dropWhile isWhiteSpace (rev (take (length s - 3) s)))
      else s)"

definition cleanText :: "jsstring \<Rightarrow> jsstring" where
  "cleanText text = stripClosingFence (stripOpeningFence (trim text))"

text \<open>
  \<^verbatim>\<open>JSON.parse\<close> is the platform's: it is the parameter \<open>JSON_parse\<close>, with \<open>None\<close> for a
  SyntaxError. The argument \<open>text\<close> is \<open>None\<close> for \<^verbatim>\<open>undefined\<close>. The result \<^verbatim>\<open>null\<close> is
  \<open>JNull\<close>.
\<close>

definition parseResponseJSON :: "(jsstring \<Rightarrow> jsvalue option) \<Rightarrow> jsstring option \<Rightarrow> jsvalue" where
  "parseResponseJSON JSON_parse text =
     (case text of
        None \<Rightarrow> JNull
      | Some t \<Rightarrow>
          if t = [] then JNull
          else (case JSON_parse (cleanText t) of None \<Rightarrow> JNull | Some v \<Rightarrow> v))"

text \<open>A payload inside a markdown fence, with the info string \<open>info\<close> (empty or \<^verbatim>\<open>json\<close>).\<close>

definition fenced :: "jsstring \<Rightarrow> jsstring \<Rightarrow> jsstring" where
  "fenced info t = codes ''```'' @ info @ [10] @ t @ [10] @ codes ''```''"

subsection \<open>Identifiers\<close>

text \<open>
  The decimal digits of a natural number, as a template literal prints an index or the
  milliseconds of \<^verbatim>\<open>Date.now()\<close>; and the digits of an integer page number (below
  \<open>10\<^sup>2\<^sup>1\<close> in absolute value, where JavaScript prints every digit).
\<close>

fun decimal :: "nat \<Rightarrow> jsstring" where
  "decimal n = (if n < 10 then [48 + n] else decimal (n div 10) @ [48 + n mod 10])"

declare decimal.simps [simp del]

definition numberToString :: "int \<Rightarrow> jsstring" where
  "numberToString i = (if i < 0 then 45 # decimal (nat (- i)) else decimal (nat i))"

text \<open>
  The template literal \<^verbatim>\<open>`page-${pageNumber}-link-${index}-${Date.now()}`\<close>: \<open>pageStr\<close> is
  the page number as the literal prints it, \<open>now\<close> the milliseconds that \<^verbatim>\<open>Date.now()\<close>
  returns.
\<close>

definition linkId :: "jsstring \<Rightarrow> nat \<Rightarrow> nat \<Rightarrow> jsstring" where
  "linkId pageStr index now =
     codes ''page-'' @ pageStr @ codes ''-link-'' @ decimal index @ codes ''-'' @ decimal now"

text \<open>
  The callback of \<^verbatim>\<open>map\<close>, the same in both entry points; \<open>now\<close> is the value of
  \<^verbatim>\<open>Date.now()\<close> in this call.
\<close>

definition toIndexLink :: "jsstring \<Rightarrow> nat \<Rightarrow> nat \<Rightarrow> jsvalue \<Rightarrow> error + RawLink" where
  "toIndexLink pageStr index now link =
     (if nullish link then Inl TypeError
      else Inr \<lparr>id' = linkId pageStr index now,
                label = getProp link (codes ''label''),
                targetPage = getProp link (codes ''targetPage''),
                box = \<lparr>ymin = getProp link (codes ''ymin''), xmin = getProp link (codes ''xmin''),
                       ymax = getProp link (codes ''ymax''), xmax = getProp link (codes ''xmax'')\<rparr>\<rparr>)"

text \<open>
  \<^verbatim>\<open>rawLinks.map((link, index) => ...)\<close>, from the index \<open>index\<close> on; \<open>clock i\<close> is what
  \<^verbatim>\<open>Date.now()\<close> returns in the call for index \<open>i\<close>.
\<close>

fun mapLinks :: "jsstring \<Rightarrow> (nat \<Rightarrow> nat) \<Rightarrow> nat \<Rightarrow> jsvalue list \<Rightarrow> error + RawLink list" where
  "mapLinks pageStr clock index [] = Inr []"
| "mapLinks pageStr clock index (link # rest) =
     (case toIndexLink pageStr index (clock index) link of
        Inl e \<Rightarrow> Inl e
      | Inr l \<Rightarrow> (case mapLinks pageStr clock (index + 1) rest of
                    Inl e \<Rightarrow> Inl e
                  | Inr ls \<Rightarrow> Inr (l # ls)))"

subsection \<open>analyzePageForIndex\<close>

text \<open>
  \<open>generateContent\<close> is the model call for an image (the model name, the prompt and the
  schema are constants of the request): it raises, or returns the text of the response,
  which may be \<^verbatim>\<open>undefined\<close>. The \<^verbatim>\<open>catch\<close> logs and raises again.
\<close>

definition analyzePageForIndex ::
  "jsstring \<Rightarrow> (jsstring \<Rightarrow> error + jsstring option) \<Rightarrow> (jsstring \<Rightarrow> jsvalue option) \<Rightarrow>
   (nat \<Rightarrow> nat) \<Rightarrow> jsstring \<Rightarrow> int \<Rightarrow> error + RawLink list" where
  "analyzePageForIndex apiKey generateContent JSON_parse clock imageBase64 pageNumber =
     (if apiKey = [] then Inl MissingApiKey
      else (case generateContent imageBase64 of
              Inl e \<Rightarrow> Inl e
            | Inr text \<Rightarrow>
                (let rawLinks = parseResponseJSON JSON_parse text
                 in if \<not> truthy rawLinks \<or> \<not> isArray rawLinks then Inr []
                    else mapLinks (numberToString pageNumber) clock 0 (elements rawLinks))))"

subsection \<open>analyzePagesBatch\<close>

text \<open>
  The callback of \<^verbatim>\<open>rawData.forEach\<close>, over the page results from position \<open>n\<close> on.
  \<open>toStr\<close> is JavaScript's conversion of a value to a string, which both the property
  key \<^verbatim>\<open>result[pageNum]\<close> and the template literal apply to \<^verbatim>\<open>pageNum\<close>; \<open>clock n i\<close> is
  \<^verbatim>\<open>Date.now()\<close> in the call for entry \<open>i\<close> of page result \<open>n\<close>.
\<close>

fun forEachPageResult ::
  "(jsvalue \<Rightarrow> jsstring) \<Rightarrow> (nat \<Rightarrow> nat \<Rightarrow> nat) \<Rightarrow> nat \<Rightarrow> (jsstring \<rightharpoonup> RawLink list) \<Rightarrow>
   jsvalue list \<Rightarrow> error + (jsstring \<rightharpoonup> RawLink list)" where
  "forEachPageResult toStr clock n result [] = Inr result"
| "forEachPageResult toStr clock n result (pageResult # rest) =
     (if nullish pageResult then Inl TypeError
      else (let pageNum = getProp pageResult (codes ''pageNumber'');
                entries = getProp pageResult (codes ''entries'')
            in if truthy pageNum \<and> truthy entries \<and> isArray entries then
                 (case mapLinks (toStr pageNum) (clock n) 0 (elements entries) of
                    Inl e \<Rightarrow> Inl e
                  | Inr ls \<Rightarrow> forEachPageResult toStr clock (n + 1) (result(toStr pageNum \<mapsto> ls)) rest)
               else forEachPageResult toStr clock (n + 1) result rest))"

definition analyzePagesBatch ::
  "jsstring \<Rightarrow> ((int \<times> jsstring) list \<Rightarrow> error + jsstring option) \<Rightarrow> (jsstring \<Rightarrow> jsvalue option) \<Rightarrow>
   (jsvalue \<Rightarrow> jsstring) \<Rightarrow> (nat \<Rightarrow> nat \<Rightarrow> nat) \<Rightarrow> (int \<times> jsstring) list \<Rightarrow>
   error + (jsstring \<rightharpoonup> RawLink list)" where
  "analyzePagesBatch apiKey generateContent JSON_parse toStr clock pages' =
     (if apiKey = [] then Inl MissingApiKey
      else (case generateContent pages' of
              Inl e \<Rightarrow> Inl e
            | Inr text \<Rightarrow>
                (let rawData = parseResponseJSON JSON_parse text
                 in if isArray rawData then forEachPageResult toStr clock 0 Map.empty (elements rawData)
                    else Inr Map.empty)))"

section \<open>The application state and its handlers (App.tsx)\<close>

text \<open>
  The state of the component that the two detection handlers read and write. The
  uploaded file (\<^verbatim>\<open>file\<close>, here \<open>pdfFile\<close>) is represented by what pdf.js makes of it. The handlers take the
  detection call as the parameter \<open>analyze\<close>; each state update
  \<^verbatim>\<open>setPageAnalyses(prev => ({...prev, [page]: detectedLinks}))\<close> is applied to the state
  left by the update before it.
\<close>

record 'l AppState =
  pdfFile :: "(error + PdfJsDocument) option"
  currentPage :: int
  analyzing :: bool
  batchProgress :: "(nat \<times> nat) option"
  pageAnalyses :: "int \<rightharpoonup> 'l list"
  error :: "string option"

definition handleAnalyzePage ::
  "(jsstring \<Rightarrow> int \<Rightarrow> error + 'l list) \<Rightarrow> 'l AppState \<Rightarrow> jsstring \<Rightarrow> 'l AppState" where
  "handleAnalyzePage analyze st imageBase64 =
     (let st1 = st\<lparr>analyzing := True, error := None\<rparr>;
          st2 = (case analyze imageBase64 (currentPage st) of
                   Inr detectedLinks \<Rightarrow>
                     st1\<lparr>pageAnalyses := (pageAnalyses st1)(currentPage st \<mapsto> detectedLinks)\<rparr>
                 | Inl err \<Rightarrow>
                     st1\<lparr>error := Some ''Failed to analyze page. Please check your API key or try again.''\<rparr>)
      in st2\<lparr>analyzing := False\<rparr>)"

text \<open>The loop of the batch scan over \<^verbatim>\<open>pagesToScan\<close> (lines 69 to 88).\<close>

fun scanLoop ::
  "(jsstring \<Rightarrow> int \<Rightarrow> error + 'l list) \<Rightarrow> (int \<rightharpoonup> jsstring) \<Rightarrow> nat \<Rightarrow> nat \<Rightarrow> 'l AppState \<Rightarrow>
   int list \<Rightarrow> 'l AppState" where
  "scanLoop analyze pageImages totalPages completed st [] = st"
| "scanLoop analyze pageImages totalPages completed st (pageNum # rest) =
     (let st' =
        (case pageImages pageNum of
           None \<Rightarrow> st
         | Some imageBase64 \<Rightarrow>
             if imageBase64 = [] then st
             else (let st1 = st\<lparr>batchProgress := Some (completed + 1, totalPages)\<rparr>
                   in (case analyze imageBase64 pageNum of
                         Inr detectedLinks \<Rightarrow>
                           st1\<lparr>pageAnalyses := (pageAnalyses st1)(pageNum \<mapsto> detectedLinks)\<rparr>
                       | Inl e \<Rightarrow> st1)))
      in scanLoop analyze pageImages totalPages (completed + 1) st' rest)"

definition handleBatchScan ::
  "(jsstring \<Rightarrow> int \<Rightarrow> error + 'l list) \<Rightarrow> 'l AppState \<Rightarrow> int list \<Rightarrow> 'l AppState" where
  "handleBatchScan analyze st pagesToScan =
     (case pdfFile st of
        None \<Rightarrow> st
      | Some f \<Rightarrow>
          (let totalPages = length pagesToScan;
               st1 = st\<lparr>analyzing := True, error := None, batchProgress := Some (0, totalPages)\<rparr>;
               st2 = (case getImagesForPages f pagesToScan of
                        Inr pageImages \<Rightarrow> scanLoop analyze pageImages totalPages 0 st1 pagesToScan
                      | Inl err \<Rightarrow> st1\<lparr>error := Some ''Batch scan encountered an error.''\<rparr>)
           in st2\<lparr>analyzing := False, batchProgress := None\<rparr>))"

section \<open>Sample inputs\<close>

text \<open>A document of two pages; its first page has one annotation, its second none.\<close>

definition sampleDoc :: PDFDocument where
  "sampleDoc =
     \<lparr>pdf_context = \<lparr>largestObjectNumber = 7, indirectObjects = Map.empty\<rparr>,
      pages = [\<lparr>width = 600, height = 800, ref = 3, Annots = Some [5]\<rparr>,
               \<lparr>width = 400, height = 500, ref = 4, Annots = None\<rparr>]\<rparr>"

definition sampleLink :: "real \<Rightarrow> real \<Rightarrow> real \<Rightarrow> real \<Rightarrow> real \<Rightarrow> TypedLink" where
  "sampleLink t y0 x0 y1 x1 =
     \<lparr>id' = [], label = [], targetPage = t, box = \<lparr>ymin = y0, xmin = x0, ymax = y1, xmax = x1\<rparr>\<rparr>"

definition sampleAnalyses :: "(int \<times> TypedLink list) list" where
  "sampleAnalyses =
     [(1, [sampleLink 2 0 0 1000 1000, sampleLink 5 0 0 10 10, sampleLink 1 0 0 500 500]),
      (3, [sampleLink 1 0 0 1 1])]"

text \<open>
  A document of three pages that pdf.js renders, and one whose second page makes the
  renderer raise and whose third page gets no 2d context.
\<close>

definition sampleJsDoc :: PdfJsDocument where
  "sampleJsDoc = \<lparr>numPages = 3, renderPage = (\<lambda>p. Rendered (codes ''jpeg''))\<rparr>"

definition brokenJsDoc :: PdfJsDocument where
  "brokenJsDoc =
     \<lparr>numPages = 3,
      renderPage = (\<lambda>p. if p = 2 then RenderFails else if p = 3 then NoContext
                         else Rendered (codes ''jpeg''))\<rparr>"

text \<open>
  A detection call that raises for page 2 and finds one entry, numbered by \<open>100 + p\<close>,
  on any other page \<open>p\<close>; and an application state that holds earlier results for the
  pages 1 and 2.
\<close>

definition sampleAnalyze :: "jsstring \<Rightarrow> int \<Rightarrow> error + nat list" where
  "sampleAnalyze imageBase64 pageNumber =
     (if pageNumber = 2 then Inl NetworkError else Inr [100 + nat pageNumber])"

definition emptyState :: "nat AppState" where
  "emptyState =
     \<lparr>pdfFile = Some (Inr sampleJsDoc), currentPage = 1, analyzing = False,
      batchProgress = None, pageAnalyses = Map.empty, error = None\<rparr>"

definition sampleState :: "nat AppState" where
  "sampleState = emptyState\<lparr>pageAnalyses := [1 \<mapsto> [11, 12], 2 \<mapsto> [21]]\<rparr>"

text \<open>
  The text \<^verbatim>\<open>[{"pageNumber":1,"entries":[{},{}]},{"pageNumber":2,"entries":[{}]}]\<close> of a
  batch response, and the value it stands for.
\<close>

definition quoted :: "string \<Rightarrow> jsstring" where
  "quoted s = [34] @ codes s @ [34]"

definition sampleBatchText :: jsstring where
  "sampleBatchText =
     codes ''[{'' @ quoted ''pageNumber'' @ codes '':1,'' @ quoted ''entries'' @ codes '':[{},{}]},{'' @
     quoted ''pageNumber'' @ codes '':2,'' @ quoted ''entries'' @ codes '':[{}]}]''"

definition sampleBatchData :: jsvalue where
  "sampleBatchData =
     JArray [JObject [(codes ''pageNumber'', JNumber 1),
                      (codes ''entries'', JArray [JObject [], JObject []])],
             JObject [(codes ''pageNumber'', JNumber 2),
                      (codes ''entries'', JArray [JObject []])]]"

text \<open>
  A stand-in for \<^verbatim>\<open>JSON.parse\<close> in the examples: on the four texts it knows it answers as
  \<^verbatim>\<open>JSON.parse\<close> does, and it rejects, as \<^verbatim>\<open>JSON.parse\<close> does, the other texts the
  examples hand to it (the empty text, a text that starts with a back-tick, \<^verbatim>\<open>oops\<close>).
  With it a stand-in for the conversion of a value to a string, right on strings and on
  the integers the examples use.
\<close>

definition sampleParse :: "jsstring \<Rightarrow> jsvalue option" where
  "sampleParse s =
     (if s = codes ''[1]'' then Some (JArray [JNumber 1])
      else if s = codes ''{}'' then Some (JObject [])
      else if s = codes ''[{},{}]'' then Some (JArray [JObject [], JObject []])
      else if s = sampleBatchText then Some sampleBatchData
      else None)"

definition sampleToString :: "jsvalue \<Rightarrow> jsstring" where
  "sampleToString v =
     (case v of JNumber x \<Rightarrow> numberToString \<lfloor>x\<rfloor> | JString s \<Rightarrow> s | _ \<Rightarrow> [])"

section \<open>Properties of the export\<close>

lemma isPage_guard:
  "isPage n p \<Longrightarrow> 0 \<le> p - 1 \<and> p - 1 < real n"
  by (auto simp: isPage_def)

lemma guard_integer_isPage:
  assumes "0 \<le> p - 1" and "p - 1 < real n" and "p = of_int \<lfloor>p\<rfloor>"
  shows "isPage n p"
proof -
  have "real_of_int \<lfloor>p\<rfloor> < real n + 1" using assms by linarith
  then have "\<lfloor>p\<rfloor> < int n + 1" by linarith
  then have "real_of_int \<lfloor>p\<rfloor> \<le> real n" by linarith
  then show ?thesis using assms by (simp add: isPage_def)
qed

lemma elementAt_page:
  assumes "isPage (length xs) p"
  shows "elementAt xs (p - 1) = Some (xs ! nat \<lfloor>p - 1\<rfloor>)"
proof -
  have "p - 1 = of_int \<lfloor>p - 1\<rfloor>"
    using assms by (simp add: isPage_def)
  then show ?thesis
    using isPage_guard [OF assms] by (simp add: elementAt_def)
qed

lemma elementAt_fraction:
  "p \<noteq> of_int \<lfloor>p\<rfloor> \<Longrightarrow> elementAt xs (p - 1) = None"
  by (auto simp: elementAt_def)

lemma processLink_skip:
  "\<not> (0 \<le> targetPage l - 1 \<and> targetPage l - 1 < real (length (pages d))) \<Longrightarrow>
   processLink i w h d l = Inr d"
  by (auto simp: processLink_def Let_def)

lemma processLink_raise:
  "0 \<le> targetPage l - 1 \<Longrightarrow> targetPage l - 1 < real (length (pages d)) \<Longrightarrow>
   targetPage l \<noteq> of_int \<lfloor>targetPage l\<rfloor> \<Longrightarrow> processLink i w h d l = Inl TypeError"
  by (simp add: processLink_def Let_def elementAt_fraction)

lemma processLink_place:
  assumes "isPage (length (pages d)) (targetPage l)"
  shows "processLink i w h d l =
     Inr (d\<lparr>pdf_context := (pdf_context d)\<lparr>largestObjectNumber := largestObjectNumber (pdf_context d) + 1,
           indirectObjects := (indirectObjects (pdf_context d))
             (largestObjectNumber (pdf_context d) + 1 \<mapsto>
               \<lparr>annot_Type = ''Annot'', Subtype = ''Link'', Rect = specRect w h (box l),
                Border = [0, 0, 0],
                annot_A = \<lparr>action_Type = ''Action'', action_S = ''GoTo'',
                           action_D = (ref (pages d ! nat \<lfloor>targetPage l - 1\<rfloor>), ''Fit'')\<rparr>\<rparr>)\<rparr>,
       pages := (pages d)[i := (pages d ! i)\<lparr>Annots :=
           Some (annotsOf (pages d ! i) @ [largestObjectNumber (pdf_context d) + 1])\<rparr>]\<rparr>)"
  using isPage_guard [OF assms]
  by (simp add: processLink_def Let_def elementAt_page [OF assms] register_def specRect_def annotsOf_def)

lemma processLink_Inr:
  assumes "processLink i w h d l = Inr d'"
  shows "(\<not> isPage (length (pages d)) (targetPage l) \<and> d' = d) \<or>
         (isPage (length (pages d)) (targetPage l) \<and> processLink i w h d l = Inr d')"
proof (cases "0 \<le> targetPage l - 1 \<and> targetPage l - 1 < real (length (pages d))")
  case False
  then have "\<not> isPage (length (pages d)) (targetPage l)" using isPage_guard by blast
  then show ?thesis using assms processLink_skip [OF False] by simp
next
  case True
  then have "targetPage l = of_int \<lfloor>targetPage l\<rfloor>"
    using assms processLink_raise [of l d i w h] by auto
  then have "isPage (length (pages d)) (targetPage l)"
    using True guard_integer_isPage by blast
  then show ?thesis using assms by simp
qed

lemma appendsTo_refl: "appendsTo d d (\<lambda>i. [])"
  by (simp add: appendsTo_def)

lemma appendsTo_trans:
  assumes "appendsTo d d1 n1" and "appendsTo d1 d2 n2"
  shows "appendsTo d d2 (\<lambda>i. n1 i @ n2 i)"
proof -
  let ?L = "\<lambda>x. largestObjectNumber (pdf_context x)"
  let ?O = "\<lambda>x. indirectObjects (pdf_context x)"
  have len: "length (pages d1) = length (pages d)" "length (pages d2) = length (pages d1)"
    using assms by (simp_all add: appendsTo_def)
  have le: "?L d \<le> ?L d1" "?L d1 \<le> ?L d2"
    using assms by (simp_all add: appendsTo_def)
  have old1: "\<And>r. r \<le> ?L d \<Longrightarrow> ?O d1 r = ?O d r"
    using assms(1) by (simp add: appendsTo_def)
  have old2: "\<And>r. r \<le> ?L d1 \<Longrightarrow> ?O d2 r = ?O d1 r"
    using assms(2) by (simp add: appendsTo_def)
  have page: "width (pages d2 ! i) = width (pages d ! i) \<and>
          height (pages d2 ! i) = height (pages d ! i) \<and>
          ref (pages d2 ! i) = ref (pages d ! i) \<and>
          (\<exists>rs. annotsOf (pages d2 ! i) = annotsOf (pages d ! i) @ rs \<and>
                (\<forall>r \<in> set rs. ?L d < r \<and> r \<le> ?L d2) \<and>
                map (\<lambda>r. map_option Rect (?O d2 r)) rs = map Some (n1 i @ n2 i))"
    if i: "i < length (pages d)" for i
  proof -
    from assms(1) i obtain rs1 where
      p1: "width (pages d1 ! i) = width (pages d ! i)" "height (pages d1 ! i) = height (pages d ! i)"
          "ref (pages d1 ! i) = ref (pages d ! i)" and
      a1: "annotsOf (pages d1 ! i) = annotsOf (pages d ! i) @ rs1" and
      b1: "\<forall>r \<in> set rs1. ?L d < r \<and> r \<le> ?L d1" and
      m1: "map (\<lambda>r. map_option Rect (?O d1 r)) rs1 = map Some (n1 i)"
      unfolding appendsTo_def by blast
    from assms(2) i len obtain rs2 where
      p2: "width (pages d2 ! i) = width (pages d1 ! i)" "height (pages d2 ! i) = height (pages d1 ! i)"
          "ref (pages d2 ! i) = ref (pages d1 ! i)" and
      a2: "annotsOf (pages d2 ! i) = annotsOf (pages d1 ! i) @ rs2" and
      b2: "\<forall>r \<in> set rs2. ?L d1 < r \<and> r \<le> ?L d2" and
      m2: "map (\<lambda>r. map_option Rect (?O d2 r)) rs2 = map Some (n2 i)"
      unfolding appendsTo_def by metis
    have "map (\<lambda>r. map_option Rect (?O d2 r)) rs1 = map (\<lambda>r. map_option Rect (?O d1 r)) rs1"
      using b1 old2 by (intro map_cong) auto
    with m1 m2 have "map (\<lambda>r. map_option Rect (?O d2 r)) (rs1 @ rs2) = map Some (n1 i @ n2 i)"
      by simp
    moreover have "\<forall>r \<in> set (rs1 @ rs2). ?L d < r \<and> r \<le> ?L d2"
      using b1 b2 le by fastforce
    moreover have "annotsOf (pages d2 ! i) = annotsOf (pages d ! i) @ (rs1 @ rs2)"
      using a1 a2 by simp
    ultimately show ?thesis using p1 p2 by metis
  qed
  have old: "\<forall>r \<le> ?L d. ?O d2 r = ?O d r"
    using old1 old2 le by (metis le_trans)
  show ?thesis
    unfolding appendsTo_def using len le old page by auto
qed

lemma appendsTo_processLink:
  assumes "i < length (pages d)" and "processLink i w h d l = Inr d'"
  shows "appendsTo d d'
           (\<lambda>j. if j = i \<and> isPage (length (pages d)) (targetPage l) then [specRect w h (box l)] else [])"
proof (cases "isPage (length (pages d)) (targetPage l)")
  case False
  then have "d' = d" using processLink_Inr [OF assms(2)] by blast
  then show ?thesis using False by (simp add: appendsTo_refl)
next
  case True
  show ?thesis
    using assms True unfolding processLink_place [OF True]
    by (auto simp: appendsTo_def nth_list_update annotsOf_def)
qed

lemma processLink_length:
  "processLink i w h d l = Inr d' \<Longrightarrow> length (pages d') = length (pages d)"
  by (auto simp: processLink_def Let_def register_def split: if_splits option.splits prod.splits)

lemma forLinks_length:
  "forLinks i w h d ls = Inr d' \<Longrightarrow> length (pages d') = length (pages d)"
proof (induction ls arbitrary: d)
  case Nil
  then show ?case by simp
next
  case (Cons l ls)
  then show ?case
    by (auto split: sum.splits dest: processLink_length)
qed

lemma forPages_length:
  "forPages d analyses = Inr d' \<Longrightarrow> length (pages d') = length (pages d)"
proof (induction analyses arbitrary: d)
  case Nil
  then show ?case by simp
next
  case (Cons e rest)
  obtain pageNum links where e: "e = (pageNum, links)" by (cases e)
  show ?case
    using Cons.prems Cons.IH
    by (auto simp: e Let_def split: if_splits sum.splits dest: forLinks_length)
qed

lemma appendsTo_forLinks:
  assumes "i < length (pages d)" and "forLinks i w h d ls = Inr d'"
  shows "appendsTo d d'
           (\<lambda>j. if j = i then map (\<lambda>l. specRect w h (box l))
                                 (filter (\<lambda>l. isPage (length (pages d)) (targetPage l)) ls)
                else [])"
  using assms
proof (induction ls arbitrary: d)
  case Nil
  then show ?case using appendsTo_refl [of d] by (simp cong: if_cong)
next
  case (Cons l ls)
  from Cons.prems(2) obtain d1 where
    p: "processLink i w h d l = Inr d1" and f: "forLinks i w h d1 ls = Inr d'"
    by (auto split: sum.splits)
  have len: "length (pages d1) = length (pages d)" using p by (rule processLink_length)
  have 1: "appendsTo d d1
     (\<lambda>j. if j = i \<and> isPage (length (pages d)) (targetPage l) then [specRect w h (box l)] else [])"
    using Cons.prems(1) p by (rule appendsTo_processLink)
  have "i < length (pages d1)" using Cons.prems(1) len by simp
  then have 2: "appendsTo d1 d'
           (\<lambda>j. if j = i then map (\<lambda>l. specRect w h (box l))
                                 (filter (\<lambda>l. isPage (length (pages d)) (targetPage l)) ls)
                else [])"
    using Cons.IH [of d1] f unfolding len by simp
  have "appendsTo d d'
     (\<lambda>j. (if j = i \<and> isPage (length (pages d)) (targetPage l) then [specRect w h (box l)] else []) @
          (if j = i then map (\<lambda>l. specRect w h (box l))
                                 (filter (\<lambda>l. isPage (length (pages d)) (targetPage l)) ls)
                else []))"
    by (rule appendsTo_trans [OF 1 2])
  moreover have "(\<lambda>j. (if j = i \<and> isPage (length (pages d)) (targetPage l) then [specRect w h (box l)] else []) @
          (if j = i then map (\<lambda>l. specRect w h (box l))
                                 (filter (\<lambda>l. isPage (length (pages d)) (targetPage l)) ls)
                else [])) =
       (\<lambda>j. if j = i then map (\<lambda>l. specRect w h (box l))
                                 (filter (\<lambda>l. isPage (length (pages d)) (targetPage l)) (l # ls))
                else [])"
    by (rule ext) simp
  ultimately show ?case by simp
qed

lemma appendsTo_forPages:
  assumes "forPages d analyses = Inr d'"
  shows "appendsTo d d'
     (\<lambda>i. map (\<lambda>l. specRect (width (pages d ! i)) (height (pages d ! i)) (box l))
              (placedOn (length (pages d)) i analyses))"
  using assms
proof (induction analyses arbitrary: d)
  case Nil
  then show ?case using appendsTo_refl [of d] by (simp add: placedOn_def)
next
  case (Cons e rest)
  obtain pageNum links where e: "e = (pageNum, links)" by (cases e)
  show ?case
  proof (cases "pageNum - 1 < 0 \<or> pageNum - 1 \<ge> int (length (pages d))")
    case True
    have "placedOn (length (pages d)) i (e # rest) = placedOn (length (pages d)) i rest"
      if "i < length (pages d)" for i
      using True that by (auto simp: placedOn_def e)
    moreover have "forPages d rest = Inr d'" using Cons.prems True by (simp add: e)
    ultimately show ?thesis
      using Cons.IH [of d] by (simp add: appendsTo_def)
  next
    case False
    define k where "k = nat (pageNum - 1)"
    have k: "k < length (pages d)" "int k = pageNum - 1" using False by (auto simp: k_def)
    let ?w = "width (pages d ! k)" and ?h = "height (pages d ! k)"
    from Cons.prems False obtain d1 where
      f: "forLinks k ?w ?h d links = Inr d1" and r: "forPages d1 rest = Inr d'"
      by (auto simp: e k_def Let_def split: sum.splits)
    have len: "length (pages d1) = length (pages d)" using f by (rule forLinks_length)
    have 1: "appendsTo d d1 (\<lambda>j. if j = k then map (\<lambda>l. specRect ?w ?h (box l))
                                 (filter (\<lambda>l. isPage (length (pages d)) (targetPage l)) links)
                else [])"
      using k(1) f by (rule appendsTo_forLinks)
    have 2: "appendsTo d1 d'
       (\<lambda>i. map (\<lambda>l. specRect (width (pages d1 ! i)) (height (pages d1 ! i)) (box l))
              (placedOn (length (pages d1)) i rest))"
      using r by (rule Cons.IH)
    have 3: "appendsTo d d'
       (\<lambda>j. (if j = k then map (\<lambda>l. specRect ?w ?h (box l))
                                 (filter (\<lambda>l. isPage (length (pages d)) (targetPage l)) links)
                else []) @
             map (\<lambda>l. specRect (width (pages d1 ! j)) (height (pages d1 ! j)) (box l))
              (placedOn (length (pages d1)) j rest))"
      by (rule appendsTo_trans [OF 1 2])
    have eq: "(if j = k then map (\<lambda>l. specRect ?w ?h (box l))
                                 (filter (\<lambda>l. isPage (length (pages d)) (targetPage l)) links)
                else []) @
             map (\<lambda>l. specRect (width (pages d1 ! j)) (height (pages d1 ! j)) (box l))
              (placedOn (length (pages d1)) j rest) =
          map (\<lambda>l. specRect (width (pages d ! j)) (height (pages d ! j)) (box l))
              (placedOn (length (pages d)) j (e # rest))"
      if "j < length (pages d)" for j
    proof -
      have "width (pages d1 ! j) = width (pages d ! j)" "height (pages d1 ! j) = height (pages d ! j)"
        using 1 that by (simp_all add: appendsTo_def)
      then show ?thesis using k(2) by (auto simp: placedOn_def e len)
    qed
    show ?thesis
      using 3 eq unfolding appendsTo_def by simp
  qed
qed

lemma forLinks_append:
  "forLinks i w h d (ls1 @ ls2) =
     (case forLinks i w h d ls1 of Inl e \<Rightarrow> Inl e | Inr d1 \<Rightarrow> forLinks i w h d1 ls2)"
  by (induction ls1 arbitrary: d) (simp_all split: sum.splits)

lemma forPages_append:
  "forPages d (as1 @ as2) =
     (case forPages d as1 of Inl e \<Rightarrow> Inl e | Inr d1 \<Rightarrow> forPages d1 as2)"
  by (induction d as1 rule: forPages.induct) (simp_all add: Let_def split: sum.splits)

lemma forPages_skip_page:
  "\<not> inRange (length (pages d)) pageNum \<Longrightarrow> forPages d ((pageNum, links) # rest) = forPages d rest"
  by (auto simp: inRange_def)

lemma forLinks_skip_link:
  assumes "\<not> (0 \<le> targetPage l - 1 \<and> targetPage l - 1 < real (length (pages d)))"
  shows "forLinks i w h d (ls1 @ l # ls2) = forLinks i w h d (ls1 @ ls2)"
proof (cases "forLinks i w h d ls1")
  case (Inl e)
  then show ?thesis by (simp add: forLinks_append)
next
  case (Inr d1)
  then have "length (pages d1) = length (pages d)" by (rule forLinks_length)
  then have "processLink i w h d1 l = Inr d1"
    using assms by (simp add: processLink_skip)
  then show ?thesis using Inr by (simp add: forLinks_append)
qed

lemma forPages_skip_link:
  assumes "\<not> (0 \<le> targetPage l - 1 \<and> targetPage l - 1 < real (length (pages d)))"
  shows "forPages d ((pageNum, ls1 @ l # ls2) # rest) = forPages d ((pageNum, ls1 @ ls2) # rest)"
  using assms by (simp add: Let_def forLinks_skip_link)

lemma forLinks_all_out:
  "\<forall>l \<in> set ls. \<not> (0 \<le> targetPage l - 1 \<and> targetPage l - 1 < real (length (pages d))) \<Longrightarrow>
   forLinks i w h d ls = Inr d"
  by (induction ls) (simp_all add: processLink_skip)

lemma forPages_all_out:
  "\<forall>(pageNum, links) \<in> set analyses. \<not> inRange (length (pages d)) pageNum \<or>
       (\<forall>l \<in> set links. \<not> (0 \<le> targetPage l - 1 \<and> targetPage l - 1 < real (length (pages d))))
   \<Longrightarrow> forPages d analyses = Inr d"
proof (induction analyses)
  case Nil
  then show ?case by simp
next
  case (Cons e rest)
  obtain pageNum links where e: "e = (pageNum, links)" by (cases e)
  have rest: "forPages d rest = Inr d" using Cons by simp
  show ?case
  proof (cases "inRange (length (pages d)) pageNum")
    case False
    then show ?thesis using rest by (simp add: e forPages_skip_page del: forPages.simps)
  next
    case True
    then have "\<forall>l \<in> set links. \<not> (0 \<le> targetPage l - 1 \<and> targetPage l - 1 < real (length (pages d)))"
      using Cons.prems by (simp add: e)
    then have "forLinks i w h d links = Inr d" for i w h
      by (rule forLinks_all_out)
    then show ?thesis using rest by (simp add: e Let_def)
  qed
qed

text \<open>
  What the two tests do skip. A page number below 1 or above the page count contributes
  nothing: the export with its entries equals the export without them. A link whose
  target page is below 1, or at least the page count plus 1, contributes nothing either;
  for an integer target page that is every target page of 0, negative, or above the page
  count. When every entry is out of range in one of these ways, the document is
  returned as it was loaded.
\<close>

lemma exportModifiedPdf_skips_outside_guard:
  "(pageNum < 1 \<or> int (length (pages d)) < pageNum \<longrightarrow>
      exportModifiedPdf (Inr d) (before @ (pageNum, links) # after) =
      exportModifiedPdf (Inr d) (before @ after)) \<and>
   (targetPage l < 1 \<or> real (length (pages d)) + 1 \<le> targetPage l \<longrightarrow>
      exportModifiedPdf (Inr d) (before @ (pageNum, ls1 @ l # ls2) # after) =
      exportModifiedPdf (Inr d) (before @ (pageNum, ls1 @ ls2) # after)) \<and>
   ((\<forall>(p, ls) \<in> set analyses. p < 1 \<or> int (length (pages d)) < p \<or>
        (\<forall>l \<in> set ls. targetPage l < 1 \<or> real (length (pages d)) + 1 \<le> targetPage l)) \<longrightarrow>
      exportModifiedPdf (Inr d) analyses = Inr d)"
proof (intro conjI impI)
  assume a: "pageNum < 1 \<or> int (length (pages d)) < pageNum"
  show "exportModifiedPdf (Inr d) (before @ (pageNum, links) # after) =
      exportModifiedPdf (Inr d) (before @ after)"
  proof (cases "forPages d before")
    case (Inl e)
    then show ?thesis by (simp add: exportModifiedPdf_def forPages_append)
  next
    case (Inr d1)
    then have "length (pages d1) = length (pages d)" by (rule forPages_length)
    then have "\<not> inRange (length (pages d1)) pageNum" using a by (auto simp: inRange_def)
    then show ?thesis
      using Inr by (simp add: exportModifiedPdf_def forPages_append forPages_skip_page del: forPages.simps)
  qed
next
  assume a: "targetPage l < 1 \<or> real (length (pages d)) + 1 \<le> targetPage l"
  show "exportModifiedPdf (Inr d) (before @ (pageNum, ls1 @ l # ls2) # after) =
      exportModifiedPdf (Inr d) (before @ (pageNum, ls1 @ ls2) # after)"
  proof (cases "forPages d before")
    case (Inl e)
    then show ?thesis by (simp add: exportModifiedPdf_def forPages_append)
  next
    case (Inr d1)
    then have "length (pages d1) = length (pages d)" by (rule forPages_length)
    then have "\<not> (0 \<le> targetPage l - 1 \<and> targetPage l - 1 < real (length (pages d1)))"
      using a by auto
    then show ?thesis
      using Inr by (simp add: exportModifiedPdf_def forPages_append forPages_skip_link del: forPages.simps)
  qed
next
  assume "\<forall>(p, ls) \<in> set analyses. p < 1 \<or> int (length (pages d)) < p \<or>
        (\<forall>l \<in> set ls. targetPage l < 1 \<or> real (length (pages d)) + 1 \<le> targetPage l)"
  then have "\<forall>(pageNum, links) \<in> set analyses. \<not> inRange (length (pages d)) pageNum \<or>
       (\<forall>l \<in> set links. \<not> (0 \<le> targetPage l - 1 \<and> targetPage l - 1 < real (length (pages d))))"
    by (fastforce simp: inRange_def)
  then show "exportModifiedPdf (Inr d) analyses = Inr d"
    by (simp add: exportModifiedPdf_def forPages_all_out)
qed

lemma processLink_returns:
  assumes "targetPage l = of_int \<lfloor>targetPage l\<rfloor>"
  shows "\<exists>d'. processLink i w h d l = Inr d'"
proof (cases "0 \<le> targetPage l - 1 \<and> targetPage l - 1 < real (length (pages d))")
  case False
  then show ?thesis by (simp add: processLink_skip)
next
  case True
  then have "isPage (length (pages d)) (targetPage l)"
    using assms guard_integer_isPage by blast
  then show ?thesis by (simp add: processLink_place)
qed

lemma forLinks_returns:
  "\<forall>l \<in> set ls. targetPage l = of_int \<lfloor>targetPage l\<rfloor> \<Longrightarrow> \<exists>d'. forLinks i w h d ls = Inr d'"
proof (induction ls arbitrary: d)
  case Nil
  then show ?case by simp
next
  case (Cons l ls)
  then obtain d1 where "processLink i w h d l = Inr d1"
    using processLink_returns [of l i w h d] by auto
  then show ?case using Cons by simp
qed

text \<open>
  When every target page is an integer, the export of a loaded document returns a
  document.
\<close>

lemma exportModifiedPdf_returns:
  "\<forall>(p, ls) \<in> set analyses. \<forall>l \<in> set ls. targetPage l = of_int \<lfloor>targetPage l\<rfloor> \<Longrightarrow>
   \<exists>d'. exportModifiedPdf (Inr d) analyses = Inr d'"
proof (induction analyses arbitrary: d)
  case Nil
  then show ?case by (simp add: exportModifiedPdf_def)
next
  case (Cons e rest)
  obtain pageNum links where e: "e = (pageNum, links)" by (cases e)
  have rest: "\<exists>d'. forPages d1 rest = Inr d'" for d1
    using Cons.IH [of d1] Cons.prems by (simp add: exportModifiedPdf_def)
  have "\<exists>d1. forLinks i w h d links = Inr d1" for i w h
    using Cons.prems by (intro forLinks_returns) (simp add: e)
  then show ?case
    using rest by (auto simp: exportModifiedPdf_def e Let_def split: sum.splits) (metis Inl_Inr_False)+
qed

text \<open>
  Claim C2 does not hold of the code for a target page that is not an integer. On the
  sample document of two pages the entry with target page 2.5, which is above the page
  count, is not skipped: the index 1.5 passes the test of line 32
  (\<open>1.5 >= 0 && 1.5 < 2\<close>), \<^verbatim>\<open>pages[1.5]\<close> is \<^verbatim>\<open>undefined\<close>, and reading its \<^verbatim>\<open>ref\<close> raises
  a TypeError that nothing catches.
\<close>

theorem exportModifiedPdf_fractional_target_raises:
  "exportModifiedPdf (Inr sampleDoc) [(1, [sampleLink (5 / 2) 0 0 10 10])] = Inl TypeError"
  by (simp add: exportModifiedPdf_def sampleDoc_def sampleLink_def processLink_def elementAt_def Let_def)

text \<open>
  Claim C1. After an export that returns, the annotations added to a page of width \<open>W\<close>
  and height \<open>H\<close> are, in order, those of the entries placed on it, and the rectangle
  written for an entry is
  \<open>[(xmin/1000) * W, H - (ymax/1000) * H, (xmax/1000) * W, H - (ymin/1000) * H]\<close>.
  An entry whose box is \<open>{ymin: 0, xmin: 0, ymax: 1000, xmax: 1000}\<close> gets \<open>[0, 0, W, H]\<close>.
\<close>

theorem exportModifiedPdf_rect:
  assumes "exportModifiedPdf (Inr d) analyses = Inr d'" and "i < length (pages d)"
  shows "map (\<lambda>r. map_option Rect (indirectObjects (pdf_context d') r))
             (drop (length (annotsOf (pages d ! i))) (annotsOf (pages d' ! i))) =
         map (\<lambda>l. Some [(xmin (box l) / 1000) * width (pages d ! i),
                         height (pages d ! i) - (ymax (box l) / 1000) * height (pages d ! i),
                         (xmax (box l) / 1000) * width (pages d ! i),
                         height (pages d ! i) - (ymin (box l) / 1000) * height (pages d ! i)])
             (placedOn (length (pages d)) i analyses) \<and>
         (\<forall>k < length (placedOn (length (pages d)) i analyses).
             box (placedOn (length (pages d)) i analyses ! k) = \<lparr>ymin = 0, xmin = 0, ymax = 1000, xmax = 1000\<rparr> \<longrightarrow>
             map_option Rect (indirectObjects (pdf_context d')
                 (annotsOf (pages d' ! i) ! (length (annotsOf (pages d ! i)) + k))) =
             Some [0, 0, width (pages d ! i), height (pages d ! i)])"
proof -
  let ?placed = "placedOn (length (pages d)) i analyses"
  let ?n = "length (annotsOf (pages d ! i))"
  let ?W = "width (pages d ! i)" and ?H = "height (pages d ! i)"
  have d': "forPages d analyses = Inr d'"
    using assms(1) by (simp add: exportModifiedPdf_def)
  from appendsTo_forPages [OF d'] assms(2) obtain rs where
    a: "annotsOf (pages d' ! i) = annotsOf (pages d ! i) @ rs" and
    m: "map (\<lambda>r. map_option Rect (indirectObjects (pdf_context d') r)) rs =
        map Some (map (\<lambda>l. specRect ?W ?H (box l)) ?placed)"
    unfolding appendsTo_def by blast
  have first: "map (\<lambda>r. map_option Rect (indirectObjects (pdf_context d') r)) (drop ?n (annotsOf (pages d' ! i))) =
         map (\<lambda>l. Some [(xmin (box l) / 1000) * ?W, ?H - (ymax (box l) / 1000) * ?H,
                         (xmax (box l) / 1000) * ?W, ?H - (ymin (box l) / 1000) * ?H]) ?placed"
    using m by (simp add: a specRect_def o_def)
  have second: "map_option Rect (indirectObjects (pdf_context d') (annotsOf (pages d' ! i) ! (?n + k))) =
             Some [0, 0, ?W, ?H]"
    if k: "k < length ?placed" and full: "box (?placed ! k) = \<lparr>ymin = 0, xmin = 0, ymax = 1000, xmax = 1000\<rparr>" for k
  proof -
    have len: "length rs = length ?placed"
      using m by (metis length_map)
    have "map (\<lambda>r. map_option Rect (indirectObjects (pdf_context d') r)) rs ! k =
          map Some (map (\<lambda>l. specRect ?W ?H (box l)) ?placed) ! k"
      using m by simp
    then have "map_option Rect (indirectObjects (pdf_context d') (rs ! k)) = Some (specRect ?W ?H (box (?placed ! k)))"
      using k len by simp
    then show ?thesis
      using k len by (simp add: a nth_append full specRect_def)
  qed
  show ?thesis using first second by blast
qed

lemma forPages_snoc_links:
  assumes "1 \<le> pageNum" and "pageNum \<le> int (length (pages d))"
      and "forPages d (before @ [(pageNum, ls1)]) = Inr d1"
  shows "\<exists>w h. forPages d (before @ [(pageNum, ls1 @ [l])]) = processLink (nat (pageNum - 1)) w h d1 l"
proof -
  from assms(3) obtain d0 where b: "forPages d before = Inr d0"
    by (auto simp: forPages_append split: sum.splits)
  have len: "length (pages d0) = length (pages d)" using b by (rule forPages_length)
  let ?i = "nat (pageNum - 1)"
  let ?w = "width (pages d0 ! ?i)" and ?h = "height (pages d0 ! ?i)"
  have f: "forLinks ?i ?w ?h d0 ls1 = Inr d1"
    using assms b len by (auto simp: forPages_append Let_def split: sum.splits)
  have "forPages d (before @ [(pageNum, ls1 @ [l])]) = processLink ?i ?w ?h d1 l"
    using assms(1,2) b len f by (simp add: forPages_append Let_def forLinks_append split: sum.splits)
  then show ?thesis by blast
qed

text \<open>
  Claim C3. Let one more valid entry (its page and its target page are pages of the
  document) be processed at the end of an export, after any entries before it. Compared
  with the export without it, the annotation array of its page has one more element at
  the end, the reference of the freshly registered link annotation: an existing array
  \<open>a\<close> becomes \<open>a\<close> followed by the new reference, so what was there stays as a prefix in
  its order, and a page without an array gets the array holding the new reference
  alone. The other pages and the objects registered before are untouched.
\<close>

theorem exportModifiedPdf_appends:
  assumes "1 \<le> pageNum" and "pageNum \<le> int (length (pages d))"
      and "targetPage l = of_int \<lfloor>targetPage l\<rfloor>"
      and "1 \<le> targetPage l" and "targetPage l \<le> real (length (pages d))"
      and "exportModifiedPdf (Inr d) (before @ [(pageNum, ls1)]) = Inr d1"
  shows "\<exists>d2. exportModifiedPdf (Inr d) (before @ [(pageNum, ls1 @ [l])]) = Inr d2 \<and>
           length (pages d2) = length (pages d1) \<and>
           (\<forall>a. Annots (pages d1 ! nat (pageNum - 1)) = Some a \<longrightarrow>
                Annots (pages d2 ! nat (pageNum - 1)) =
                  Some (a @ [largestObjectNumber (pdf_context d1) + 1])) \<and>
           (Annots (pages d1 ! nat (pageNum - 1)) = None \<longrightarrow>
                Annots (pages d2 ! nat (pageNum - 1)) =
                  Some [largestObjectNumber (pdf_context d1) + 1]) \<and>
           (\<forall>j < length (pages d1). j \<noteq> nat (pageNum - 1) \<longrightarrow> pages d2 ! j = pages d1 ! j) \<and>
           map_option Subtype (indirectObjects (pdf_context d2) (largestObjectNumber (pdf_context d1) + 1)) =
             Some ''Link'' \<and>
           (\<forall>r. r \<noteq> largestObjectNumber (pdf_context d1) + 1 \<longrightarrow>
                indirectObjects (pdf_context d2) r = indirectObjects (pdf_context d1) r)"
proof -
  have d1: "forPages d (before @ [(pageNum, ls1)]) = Inr d1"
    using assms(6) by (simp add: exportModifiedPdf_def)
  have len: "length (pages d1) = length (pages d)"
    using d1 by (rule forPages_length)
  have r: "isPage (length (pages d1)) (targetPage l)"
    using assms(3,4,5) by (simp add: isPage_def len)
  have k: "nat (pageNum - 1) < length (pages d1)" using assms(1,2) len by auto
  from forPages_snoc_links [OF assms(1,2) d1] obtain w h where
    "forPages d (before @ [(pageNum, ls1 @ [l])]) = processLink (nat (pageNum - 1)) w h d1 l"
    by blast
  then have e2: "exportModifiedPdf (Inr d) (before @ [(pageNum, ls1 @ [l])]) =
                 processLink (nat (pageNum - 1)) w h d1 l"
    by (simp add: exportModifiedPdf_def)
  show ?thesis
    unfolding e2 processLink_place [OF r]
    using k by (simp add: annotsOf_def)
qed

text \<open>Claim C1 on a document of two pages: the first page is 600 by 800 and has one annotation.\<close>

theorem exportModifiedPdf_rect_witness:
  "\<exists>d'. exportModifiedPdf (Inr sampleDoc) sampleAnalyses = Inr d' \<and>
        0 < length (pages sampleDoc) \<and>
        map (\<lambda>r. map_option Rect (indirectObjects (pdf_context d') r))
            (drop 1 (annotsOf (pages d' ! 0))) =
          [Some [0, 0, 600, 800], Some [0, 400, 300, 800]] \<and>
        map_option Rect (indirectObjects (pdf_context d') (annotsOf (pages d' ! 0) ! 1)) =
          Some [0, 0, 600, 800]"
proof -
  have "\<forall>(p, ls) \<in> set sampleAnalyses. \<forall>l \<in> set ls. targetPage l = of_int \<lfloor>targetPage l\<rfloor>"
    by (simp add: sampleAnalyses_def sampleLink_def)
  then obtain d' where h1: "exportModifiedPdf (Inr sampleDoc) sampleAnalyses = Inr d'"
    using exportModifiedPdf_returns by blast
  have h2: "0 < length (pages sampleDoc)"
    by (simp add: sampleDoc_def)
  have p: "placedOn (length (pages sampleDoc)) 0 sampleAnalyses =
             [sampleLink 2 0 0 1000 1000, sampleLink 1 0 0 500 500]"
    by (simp add: placedOn_def sampleAnalyses_def sampleDoc_def sampleLink_def isPage_def)
  have n: "length (annotsOf (pages sampleDoc ! 0)) = 1"
    by (simp add: sampleDoc_def annotsOf_def)
  have w: "width (pages sampleDoc ! 0) = 600" "height (pages sampleDoc ! 0) = 800"
    by (simp_all add: sampleDoc_def)
  have res: "map (\<lambda>r. map_option Rect (indirectObjects (pdf_context d') r))
            (drop 1 (annotsOf (pages d' ! 0))) =
          [Some [0, 0, 600, 800], Some [0, 400, 300, 800]] \<and>
        map_option Rect (indirectObjects (pdf_context d') (annotsOf (pages d' ! 0) ! 1)) =
          Some [0, 0, 600, 800]"
    using exportModifiedPdf_rect [OF h1 h2]
    unfolding p n w
    by (simp add: sampleLink_def)
  show ?thesis
    by (rule exI [of _ d']) (rule conjI [OF h1 conjI [OF h2 res]])
qed

text \<open>
  Claim C3 on the same document: alone, the entry turns the array \<open>[5]\<close> of the first
  page into \<open>[5, 8]\<close>; after an entry on the first page, an entry on the second page,
  which has no array, gives it the array \<open>[9]\<close>.
\<close>

theorem exportModifiedPdf_appends_witness:
  "(\<exists>d1 d2. exportModifiedPdf (Inr sampleDoc) ([] @ [(1, [])]) = Inr d1 \<and>
        exportModifiedPdf (Inr sampleDoc) ([] @ [(1, [] @ [sampleLink 2 0 0 500 500])]) = Inr d2 \<and>
        Annots (pages d1 ! 0) = Some [5] \<and> Annots (pages d2 ! 0) = Some [5, 8] \<and>
        pages d2 ! 1 = pages d1 ! 1) \<and>
   (\<exists>d1 d2. exportModifiedPdf (Inr sampleDoc)
          ([(1, [sampleLink 1 0 0 10 10])] @ [(2, [])]) = Inr d1 \<and>
        exportModifiedPdf (Inr sampleDoc)
          ([(1, [sampleLink 1 0 0 10 10])] @ [(2, [] @ [sampleLink 2 0 0 500 500])]) = Inr d2 \<and>
        Annots (pages d1 ! 0) = Some [5, 8] \<and> Annots (pages d2 ! 0) = Some [5, 8] \<and>
        Annots (pages d1 ! 1) = None \<and> Annots (pages d2 ! 1) = Some [9])"
proof -
  have t: "targetPage (sampleLink 2 0 0 500 500) = of_int \<lfloor>targetPage (sampleLink 2 0 0 500 500)\<rfloor>"
      "1 \<le> targetPage (sampleLink 2 0 0 500 500)"
      "targetPage (sampleLink 2 0 0 500 500) \<le> real (length (pages sampleDoc))"
    by (simp_all add: sampleDoc_def sampleLink_def)
  have first: "\<exists>d1 d2. exportModifiedPdf (Inr sampleDoc) ([] @ [(1, [])]) = Inr d1 \<and>
        exportModifiedPdf (Inr sampleDoc) ([] @ [(1, [] @ [sampleLink 2 0 0 500 500])]) = Inr d2 \<and>
        Annots (pages d1 ! 0) = Some [5] \<and> Annots (pages d2 ! 0) = Some [5, 8] \<and>
        pages d2 ! 1 = pages d1 ! 1"
  proof -
    have p: "(1::int) \<le> 1" "1 \<le> int (length (pages sampleDoc))"
      by (simp_all add: sampleDoc_def)
    have e1: "exportModifiedPdf (Inr sampleDoc) ([] @ [(1, [])]) = Inr sampleDoc"
      by (simp add: exportModifiedPdf_def sampleDoc_def)
    from exportModifiedPdf_appends [OF p t e1] obtain d2 where
      e2: "exportModifiedPdf (Inr sampleDoc) ([] @ [(1, [] @ [sampleLink 2 0 0 500 500])]) = Inr d2" and
      s: "\<forall>a. Annots (pages sampleDoc ! nat (1 - 1)) = Some a \<longrightarrow>
              Annots (pages d2 ! nat (1 - 1)) = Some (a @ [largestObjectNumber (pdf_context sampleDoc) + 1])" and
      o: "\<forall>j < length (pages sampleDoc). j \<noteq> nat (1 - 1) \<longrightarrow> pages d2 ! j = pages sampleDoc ! j"
      by (elim exE conjE) (rule that)
    have a: "Annots (pages sampleDoc ! 0) = Some [5]" "largestObjectNumber (pdf_context sampleDoc) = 7"
      "length (pages sampleDoc) = 2"
      by (simp_all add: sampleDoc_def)
    have "Annots (pages d2 ! 0) = Some [5, 8]" using s a by simp
    moreover have "pages d2 ! 1 = pages sampleDoc ! 1" using o a by simp
    ultimately show ?thesis using e1 e2 a(1)
      by (intro exI [of _ sampleDoc] exI [of _ d2] conjI)
  qed
  have second: "\<exists>d1 d2. exportModifiedPdf (Inr sampleDoc)
          ([(1, [sampleLink 1 0 0 10 10])] @ [(2, [])]) = Inr d1 \<and>
        exportModifiedPdf (Inr sampleDoc)
          ([(1, [sampleLink 1 0 0 10 10])] @ [(2, [] @ [sampleLink 2 0 0 500 500])]) = Inr d2 \<and>
        Annots (pages d1 ! 0) = Some [5, 8] \<and> Annots (pages d2 ! 0) = Some [5, 8] \<and>
        Annots (pages d1 ! 1) = None \<and> Annots (pages d2 ! 1) = Some [9]"
  proof -
    have p: "(1::int) \<le> 2" "2 \<le> int (length (pages sampleDoc))"
      by (simp_all add: sampleDoc_def)
    have "\<forall>(p, ls) \<in> set ([(1, [sampleLink 1 0 0 10 10])] @ [(2, [])]).
            \<forall>l \<in> set ls. targetPage l = of_int \<lfloor>targetPage l\<rfloor>"
      by (simp add: sampleLink_def)
    then obtain d1 where
      e1: "exportModifiedPdf (Inr sampleDoc) ([(1, [sampleLink 1 0 0 10 10])] @ [(2, [])]) = Inr d1"
      using exportModifiedPdf_returns by blast
    have a: "Annots (pages d1 ! 0) = Some [5, 8]" "largestObjectNumber (pdf_context d1) = 8"
      "length (pages d1) = 2" "Annots (pages d1 ! 1) = None"
      using e1
      by (auto simp: exportModifiedPdf_def sampleDoc_def sampleLink_def processLink_def register_def
            elementAt_def Let_def)
    from exportModifiedPdf_appends [OF p t e1] obtain d2 where
      e2: "exportModifiedPdf (Inr sampleDoc)
          ([(1, [sampleLink 1 0 0 10 10])] @ [(2, [] @ [sampleLink 2 0 0 500 500])]) = Inr d2" and
      n: "Annots (pages d1 ! nat (2 - 1)) = None \<longrightarrow>
              Annots (pages d2 ! nat (2 - 1)) = Some [largestObjectNumber (pdf_context d1) + 1]" and
      o: "\<forall>j < length (pages d1). j \<noteq> nat (2 - 1) \<longrightarrow> pages d2 ! j = pages d1 ! j"
      by (elim exE conjE) (rule that)
    have "Annots (pages d2 ! 1) = Some [9]" using n a by simp
    moreover have "Annots (pages d2 ! 0) = Some [5, 8]" using o a by simp
    ultimately show ?thesis using e1 e2 a(1,4)
      by (intro exI [of _ d1] exI [of _ d2] conjI)
  qed
  show ?thesis using first second by (rule conjI)
qed

section \<open>Properties of the rasterizer\<close>

lemma renderLoop_lookup:
  "renderLoop pdfDoc results pageNumbers P =
     (if P \<in> set pageNumbers \<and> inRange (numPages pdfDoc) P then
        (case renderPage pdfDoc P of Rendered jpeg \<Rightarrow> Some jpeg | NoContext \<Rightarrow> results P
         | RenderFails \<Rightarrow> results P)
      else results P)"
proof (induction pageNumbers arbitrary: results)
  case Nil
  then show ?case by simp
next
  case (Cons pageNum rest)
  show ?case
  proof (cases "pageNum < 1 \<or> pageNum > int (numPages pdfDoc)")
    case True
    then show ?thesis using Cons.IH [of results] by (auto simp: inRange_def)
  next
    case False
    then show ?thesis
      by (cases "renderPage pdfDoc pageNum")
         (auto simp: Cons.IH inRange_def split: RenderOutcome.splits)
  qed
qed

text \<open>
  Claim C5, as the code has it. For a file that pdf.js opens the call returns a mapping
  and raises nothing. A requested page number within bounds has an entry when rendering
  it succeeds, and none when the canvas has no 2d context or rendering raises (the
  failure is caught and logged); a page number outside the bounds, or not requested,
  has none.
\<close>

theorem getImagesForPages_entries:
  "\<exists>m. getImagesForPages (Inr pdfDoc) pageNumbers = Inr m \<and>
       (P \<in> set pageNumbers \<and> 1 \<le> P \<and> P \<le> int (numPages pdfDoc) \<and>
          renderPage pdfDoc P = Rendered jpeg \<longrightarrow> m P = Some jpeg) \<and>
       (P \<in> set pageNumbers \<and> 1 \<le> P \<and> P \<le> int (numPages pdfDoc) \<and>
          (renderPage pdfDoc P = NoContext \<or> renderPage pdfDoc P = RenderFails) \<longrightarrow> m P = None) \<and>
       (P < 1 \<or> int (numPages pdfDoc) < P \<longrightarrow> m P = None) \<and>
       (P \<notin> set pageNumbers \<longrightarrow> m P = None)"
  by (auto simp: getImagesForPages_def renderLoop_lookup inRange_def)

text \<open>
  The pages 0 to 4 of a document of three pages, whose page 2 fails to render and whose
  page 3 gets no context: only page 1 has an entry.
\<close>

theorem getImagesForPages_entries_witness:
  "\<exists>m. getImagesForPages (Inr brokenJsDoc) [0, 1, 2, 3, 4] = Inr m \<and>
       m 0 = None \<and> m 1 = Some (codes ''jpeg'') \<and> m 2 = None \<and> m 3 = None \<and> m 4 = None"
proof -
  have n: "numPages brokenJsDoc = 3" "renderPage brokenJsDoc 1 = Rendered (codes ''jpeg'')"
     "renderPage brokenJsDoc 2 = RenderFails" "renderPage brokenJsDoc 3 = NoContext"
    by (simp_all add: brokenJsDoc_def)
  from getImagesForPages_entries [of brokenJsDoc "[0, 1, 2, 3, 4]" 0]
       getImagesForPages_entries [of brokenJsDoc "[0, 1, 2, 3, 4]" 1 "codes ''jpeg''"]
       getImagesForPages_entries [of brokenJsDoc "[0, 1, 2, 3, 4]" 2]
       getImagesForPages_entries [of brokenJsDoc "[0, 1, 2, 3, 4]" 3]
       getImagesForPages_entries [of brokenJsDoc "[0, 1, 2, 3, 4]" 4]
  show ?thesis unfolding n by auto
qed

text \<open>
  Claim C5 as stated fails: page 2 is requested and within the bounds of the three-page
  document, rendering it raises, and the result has no entry for it.
\<close>

theorem getImagesForPages_counterexample:
  "2 \<in> set [1, 2, 3 :: int] \<and> (1::int) \<le> 2 \<and> 2 \<le> int (numPages brokenJsDoc) \<and>
   getImagesForPages (Inr brokenJsDoc) [1, 2, 3] = Inr [1 \<mapsto> codes ''jpeg''] \<and>
   [1 \<mapsto> codes ''jpeg''] (2::int) = None"
  by (simp add: getImagesForPages_def brokenJsDoc_def)

section \<open>Properties of the handlers of the application\<close>

lemma scanLoop_pageAnalyses:
  "pageAnalyses (scanLoop analyze pageImages totalPages completed st pagesToScan) q =
     (if q \<in> set pagesToScan then
        (case pageImages q of
           None \<Rightarrow> pageAnalyses st q
         | Some imageBase64 \<Rightarrow>
             if imageBase64 = [] then pageAnalyses st q
             else (case analyze imageBase64 q of Inr detectedLinks \<Rightarrow> Some detectedLinks
                   | Inl e \<Rightarrow> pageAnalyses st q))
      else pageAnalyses st q)"
proof (induction pagesToScan arbitrary: st completed)
  case Nil
  then show ?case by simp
next
  case (Cons pageNum rest)
  show ?case
    by (simp add: Cons.IH Let_def split: option.splits sum.splits)
qed

lemma scanLoop_error:
  "error (scanLoop analyze pageImages totalPages completed st pagesToScan) = error st"
proof (induction pagesToScan arbitrary: st completed)
  case Nil
  then show ?case by simp
next
  case (Cons pageNum rest)
  show ?case
    by (simp add: Cons.IH Let_def split: option.splits sum.splits)
qed

lemma handleBatchScan_pageAnalyses:
  assumes "pdfFile st = Some (Inr pdfDoc)"
  shows "pageAnalyses (handleBatchScan analyze st pagesToScan) q =
     (if q \<in> set pagesToScan \<and> inRange (numPages pdfDoc) q then
        (case renderPage pdfDoc q of
           Rendered imageBase64 \<Rightarrow>
             if imageBase64 = [] then pageAnalyses st q
             else (case analyze imageBase64 q of Inr detectedLinks \<Rightarrow> Some detectedLinks
                   | Inl e \<Rightarrow> pageAnalyses st q)
         | NoContext \<Rightarrow> pageAnalyses st q
         | RenderFails \<Rightarrow> pageAnalyses st q)
      else pageAnalyses st q)"
  using assms
  by (simp add: handleBatchScan_def getImagesForPages_def Let_def scanLoop_pageAnalyses
        renderLoop_lookup split: RenderOutcome.splits sum.splits)

lemma handleBatchScan_untouched:
  "q \<notin> set pagesToScan \<Longrightarrow> pageAnalyses (handleBatchScan analyze st pagesToScan) q = pageAnalyses st q"
  by (simp add: handleBatchScan_def getImagesForPages_def Let_def scanLoop_pageAnalyses
        split: option.splits sum.splits)

lemma handleBatchScan_error:
  assumes "pdfFile st = Some (Inr pdfDoc)"
  shows "error (handleBatchScan analyze st pagesToScan) = None"
    and "analyzing (handleBatchScan analyze st pagesToScan) = False"
    and "batchProgress (handleBatchScan analyze st pagesToScan) = None"
  using assms
  by (simp_all add: handleBatchScan_def getImagesForPages_def Let_def scanLoop_error)


text \<open>
  Claim C4, as the code has it. A batch scan of a file that opens ends without the error
  banner. For a page whose detection call raises, the scan records nothing: the stored
  results of that page are what they were before the scan, so they are absent when the
  page had none. Every
  scanned page within bounds that renders to a non-empty image and whose detection call
  succeeds has the detected entries afterwards, whatever happened to the other pages.
\<close>

theorem handleBatchScan_continues_after_failure:
  assumes "pdfFile st = Some (Inr pdfDoc)"
  shows "error (handleBatchScan analyze st pagesToScan) = None \<and>
         analyzing (handleBatchScan analyze st pagesToScan) = False \<and>
         (\<forall>p. (\<forall>imageBase64. renderPage pdfDoc p = Rendered imageBase64 \<longrightarrow>
                   (\<exists>e. analyze imageBase64 p = Inl e)) \<longrightarrow>
              pageAnalyses (handleBatchScan analyze st pagesToScan) p = pageAnalyses st p) \<and>
         (\<forall>p. (\<forall>imageBase64. renderPage pdfDoc p = Rendered imageBase64 \<longrightarrow>
                   (\<exists>e. analyze imageBase64 p = Inl e)) \<and> pageAnalyses st p = None \<longrightarrow>
              pageAnalyses (handleBatchScan analyze st pagesToScan) p = None) \<and>
         (\<forall>q imageBase64 detectedLinks.
              q \<in> set pagesToScan \<and> 1 \<le> q \<and> q \<le> int (numPages pdfDoc) \<and>
              renderPage pdfDoc q = Rendered imageBase64 \<and> imageBase64 \<noteq> [] \<and>
              analyze imageBase64 q = Inr detectedLinks \<longrightarrow>
              pageAnalyses (handleBatchScan analyze st pagesToScan) q = Some detectedLinks)"
proof -
  have unchanged: "pageAnalyses (handleBatchScan analyze st pagesToScan) p = pageAnalyses st p"
    if f: "\<forall>imageBase64. renderPage pdfDoc p = Rendered imageBase64 \<longrightarrow>
             (\<exists>e. analyze imageBase64 p = Inl e)" for p
  proof (cases "renderPage pdfDoc p")
    case (Rendered imageBase64)
    then obtain e where "analyze imageBase64 p = Inl e" using f by blast
    then show ?thesis
      by (simp add: handleBatchScan_pageAnalyses [OF assms] Rendered)
  next
    case NoContext
    then show ?thesis by (simp add: handleBatchScan_pageAnalyses [OF assms])
  next
    case RenderFails
    then show ?thesis by (simp add: handleBatchScan_pageAnalyses [OF assms])
  qed
  have absent: "pageAnalyses (handleBatchScan analyze st pagesToScan) p = None"
    if "(\<forall>imageBase64. renderPage pdfDoc p = Rendered imageBase64 \<longrightarrow>
           (\<exists>e. analyze imageBase64 p = Inl e)) \<and> pageAnalyses st p = None" for p
    using that unchanged [of p] by simp
  have processed: "pageAnalyses (handleBatchScan analyze st pagesToScan) q = Some detectedLinks"
    if "q \<in> set pagesToScan \<and> 1 \<le> q \<and> q \<le> int (numPages pdfDoc) \<and>
        renderPage pdfDoc q = Rendered imageBase64 \<and> imageBase64 \<noteq> [] \<and>
        analyze imageBase64 q = Inr detectedLinks" for q imageBase64 detectedLinks
    using that by (simp add: handleBatchScan_pageAnalyses [OF assms] inRange_def)
  show ?thesis
  proof (intro conjI allI impI)
    show "error (handleBatchScan analyze st pagesToScan) = None"
      by (rule handleBatchScan_error [OF assms])
    show "analyzing (handleBatchScan analyze st pagesToScan) = False"
      by (simp add: handleBatchScan_error [OF assms])
  qed (fact unchanged absent processed)+
qed

text \<open>
  Scanning the pages 1, 2, 3 with a detection call that raises for page 2. From the empty
  state, results are present for the pages 1 and 3 and absent for page 2. From a state
  with earlier results, the pages 1 and 3 get the new results and page 2 keeps what it
  had.
\<close>

theorem handleBatchScan_continues_after_failure_witness:
  "pdfFile emptyState = Some (Inr sampleJsDoc) \<and>
   pdfFile sampleState = Some (Inr sampleJsDoc) \<and>
   sampleAnalyze (codes ''jpeg'') 2 = Inl NetworkError \<and>
   error (handleBatchScan sampleAnalyze emptyState [1, 2, 3]) = None \<and>
   pageAnalyses (handleBatchScan sampleAnalyze emptyState [1, 2, 3]) 1 = Some [101] \<and>
   pageAnalyses (handleBatchScan sampleAnalyze emptyState [1, 2, 3]) 2 = None \<and>
   pageAnalyses (handleBatchScan sampleAnalyze emptyState [1, 2, 3]) 3 = Some [103] \<and>
   pageAnalyses (handleBatchScan sampleAnalyze sampleState [1, 2, 3]) 1 = Some [101] \<and>
   pageAnalyses (handleBatchScan sampleAnalyze sampleState [1, 2, 3]) 2 = pageAnalyses sampleState 2 \<and>
   pageAnalyses (handleBatchScan sampleAnalyze sampleState [1, 2, 3]) 3 = Some [103]"
proof -
  have f: "pdfFile emptyState = Some (Inr sampleJsDoc)"
    by (simp add: emptyState_def)
  have g: "pdfFile sampleState = Some (Inr sampleJsDoc)"
    by (simp add: sampleState_def emptyState_def)
  have a: "\<forall>imageBase64. renderPage sampleJsDoc 2 = Rendered imageBase64 \<longrightarrow>
             (\<exists>e. sampleAnalyze imageBase64 2 = Inl e)"
      "sampleAnalyze (codes ''jpeg'') 2 = Inl NetworkError"
      "sampleAnalyze (codes ''jpeg'') 1 = Inr [101]" "sampleAnalyze (codes ''jpeg'') 3 = Inr [103]"
    by (simp_all add: sampleAnalyze_def)
  have r: "numPages sampleJsDoc = 3" "\<And>p. renderPage sampleJsDoc p = Rendered (codes ''jpeg'')"
      "codes ''jpeg'' \<noteq> []" "pageAnalyses emptyState 2 = None"
    by (simp_all add: sampleJsDoc_def emptyState_def codes_def)
  note t = handleBatchScan_continues_after_failure [OF f, of sampleAnalyze "[1, 2, 3]"]
  note u = handleBatchScan_continues_after_failure [OF g, of sampleAnalyze "[1, 2, 3]"]
  have 1: "error (handleBatchScan sampleAnalyze emptyState [1, 2, 3]) = None"
    using t by blast
  have 2: "pageAnalyses (handleBatchScan sampleAnalyze emptyState [1, 2, 3]) 2 = None"
    using t a(1) r(4) by blast
  have 3: "pageAnalyses (handleBatchScan sampleAnalyze emptyState [1, 2, 3]) 1 = Some [101]"
    using t a(3) r(1,2,3) by simp
  have 4: "pageAnalyses (handleBatchScan sampleAnalyze emptyState [1, 2, 3]) 3 = Some [103]"
    using t a(4) r(1,2,3) by simp
  have 5: "pageAnalyses (handleBatchScan sampleAnalyze sampleState [1, 2, 3]) 2 = pageAnalyses sampleState 2"
    using u a(1) by blast
  have 6: "pageAnalyses (handleBatchScan sampleAnalyze sampleState [1, 2, 3]) 1 = Some [101]"
    using u a(3) r(1,2,3) by simp
  have 7: "pageAnalyses (handleBatchScan sampleAnalyze sampleState [1, 2, 3]) 3 = Some [103]"
    using u a(4) r(1,2,3) by simp
  show ?thesis using f g a(2) 1 2 3 4 5 6 7 by simp
qed

text \<open>
  Claim C4 as stated fails when the page has results from an earlier detection: the
  call for page 2 raises, and after the scan the state still holds the earlier entries
  of page 2, so results for that page are not absent.
\<close>

theorem handleBatchScan_counterexample:
  "pdfFile sampleState = Some (Inr sampleJsDoc) \<and>
   renderPage sampleJsDoc 2 = Rendered (codes ''jpeg'') \<and>
   sampleAnalyze (codes ''jpeg'') 2 = Inl NetworkError \<and>
   pageAnalyses (handleBatchScan sampleAnalyze sampleState [1, 2, 3]) 2 = Some [21]"
proof -
  have f: "pdfFile sampleState = Some (Inr sampleJsDoc)"
    by (simp add: sampleState_def emptyState_def)
  have r: "renderPage sampleJsDoc 2 = Rendered (codes ''jpeg'')"
    by (simp add: sampleJsDoc_def)
  have a: "sampleAnalyze (codes ''jpeg'') 2 = Inl NetworkError"
    by (simp add: sampleAnalyze_def)
  have "pageAnalyses (handleBatchScan sampleAnalyze sampleState [1, 2, 3]) 2 = Some [21]"
    by (simp add: handleBatchScan_pageAnalyses [OF f] r a) (simp add: sampleState_def emptyState_def)
  then show ?thesis using f r a by simp
qed

text \<open>
  Claim C8. When detection succeeds for a page, in the single-page handler or in the
  batch scan, the stored entries of that page are exactly the detected ones, whatever
  was stored before. The single-page handler leaves every other page as it was, and the
  batch scan leaves every page that is not scanned as it was.
\<close>

theorem reanalysis_replaces_page:
  "(analyze imageBase64 (currentPage st) = Inr detectedLinks \<longrightarrow>
      pageAnalyses (handleAnalyzePage analyze st imageBase64) (currentPage st) = Some detectedLinks \<and>
      (\<forall>q. q \<noteq> currentPage st \<longrightarrow>
         pageAnalyses (handleAnalyzePage analyze st imageBase64) q = pageAnalyses st q)) \<and>
   (pdfFile st = Some (Inr pdfDoc) \<and> p \<in> set pagesToScan \<and> 1 \<le> p \<and> p \<le> int (numPages pdfDoc) \<and>
    renderPage pdfDoc p = Rendered imageBase64 \<and> imageBase64 \<noteq> [] \<and>
    analyze imageBase64 p = Inr detectedLinks \<longrightarrow>
      pageAnalyses (handleBatchScan analyze st pagesToScan) p = Some detectedLinks) \<and>
   (\<forall>q. q \<notin> set pagesToScan \<longrightarrow>
      pageAnalyses (handleBatchScan analyze st pagesToScan) q = pageAnalyses st q)"
proof (intro conjI impI allI)
  assume "analyze imageBase64 (currentPage st) = Inr detectedLinks"
  then show "pageAnalyses (handleAnalyzePage analyze st imageBase64) (currentPage st) = Some detectedLinks"
    by (simp add: handleAnalyzePage_def Let_def)
next
  fix q
  assume "analyze imageBase64 (currentPage st) = Inr detectedLinks" "q \<noteq> currentPage st"
  then show "pageAnalyses (handleAnalyzePage analyze st imageBase64) q = pageAnalyses st q"
    by (simp add: handleAnalyzePage_def Let_def)
next
  assume "pdfFile st = Some (Inr pdfDoc) \<and> p \<in> set pagesToScan \<and> 1 \<le> p \<and> p \<le> int (numPages pdfDoc) \<and>
    renderPage pdfDoc p = Rendered imageBase64 \<and> imageBase64 \<noteq> [] \<and>
    analyze imageBase64 p = Inr detectedLinks"
  then show "pageAnalyses (handleBatchScan analyze st pagesToScan) p = Some detectedLinks"
    by (simp add: handleBatchScan_pageAnalyses inRange_def)
next
  fix q
  assume "q \<notin> set pagesToScan"
  then show "pageAnalyses (handleBatchScan analyze st pagesToScan) q = pageAnalyses st q"
    by (rule handleBatchScan_untouched)
qed

text \<open>
  Page 1 holds \<open>[11, 12]\<close> and page 2 holds \<open>[21]\<close>; analysing page 1 again stores
  \<open>[101]\<close> for page 1 and keeps \<open>[21]\<close> for page 2.
\<close>

theorem reanalysis_replaces_page_witness:
  "pageAnalyses sampleState 1 = Some [11, 12] \<and> pageAnalyses sampleState 2 = Some [21] \<and>
   sampleAnalyze (codes ''jpeg'') (currentPage sampleState) = Inr [101] \<and>
   pageAnalyses (handleAnalyzePage sampleAnalyze sampleState (codes ''jpeg'')) 1 = Some [101] \<and>
   pageAnalyses (handleAnalyzePage sampleAnalyze sampleState (codes ''jpeg'')) 2 = Some [21] \<and>
   pageAnalyses (handleBatchScan sampleAnalyze sampleState [1, 3]) 1 = Some [101] \<and>
   pageAnalyses (handleBatchScan sampleAnalyze sampleState [1, 3]) 2 = Some [21]"
proof -
  have s: "pageAnalyses sampleState 1 = Some [11, 12]" "pageAnalyses sampleState 2 = Some [21]"
      "currentPage sampleState = 1" "pdfFile sampleState = Some (Inr sampleJsDoc)"
    by (simp_all add: sampleState_def emptyState_def)
  have a: "sampleAnalyze (codes ''jpeg'') 1 = Inr [101]"
    by (simp add: sampleAnalyze_def)
  have r: "numPages sampleJsDoc = 3" "renderPage sampleJsDoc 1 = Rendered (codes ''jpeg'')"
      "codes ''jpeg'' \<noteq> []"
    by (simp_all add: sampleJsDoc_def codes_def)
  note t = reanalysis_replaces_page [of sampleAnalyze "codes ''jpeg''" sampleState "[101]" sampleJsDoc 1 "[1, 3]"]
  have "pageAnalyses (handleAnalyzePage sampleAnalyze sampleState (codes ''jpeg'')) 1 = Some [101]"
    using t s a by simp
  moreover have "pageAnalyses (handleAnalyzePage sampleAnalyze sampleState (codes ''jpeg'')) 2 = Some [21]"
    using t s a by simp
  moreover have "pageAnalyses (handleBatchScan sampleAnalyze sampleState [1, 3]) 1 = Some [101]"
    using t s a r by simp
  moreover have "pageAnalyses (handleBatchScan sampleAnalyze sampleState [1, 3]) 2 = Some [21]"
    using t s by simp
  ultimately show ?thesis using s a by simp
qed

section \<open>Properties of the detection client\<close>

subsection \<open>Fences\<close>

lemma isWhiteSpace_newline: "isWhiteSpace 10"
  by (simp add: isWhiteSpace_def)

lemma not_isWhiteSpace_backtick: "\<not> isWhiteSpace 96"
  by (simp add: isWhiteSpace_def)

lemma codes_fence: "codes ''```'' = [96, 96, 96]"
  by (simp add: codes_def)

lemma codes_json: "codes ''json'' = [106, 115, 111, 110]"
  by (simp add: codes_def)

lemma trim_fenced: "trim (fenced info t) = fenced info t"
  by (simp add: trim_def fenced_def codes_fence not_isWhiteSpace_backtick)

lemma dropWhile_ws_fence:
  "dropWhile isWhiteSpace (10 # t @ [10, 96, 96, 96]) = dropWhile isWhiteSpace t @ (if \<forall>c \<in> set t. isWhiteSpace c then [96, 96, 96] else [10, 96, 96, 96])"
proof -
  have "dropWhile isWhiteSpace (t @ [10, 96, 96, 96]) =
        (if \<forall>c \<in> set t. isWhiteSpace c then [96, 96, 96] else dropWhile isWhiteSpace t @ [10, 96, 96, 96])"
    by (simp add: dropWhile_append isWhiteSpace_newline not_isWhiteSpace_backtick)
  then show ?thesis
    by (simp add: isWhiteSpace_newline)
qed

lemma not_startsWithJson_newline: "\<not> startsWithJson (10 # s)"
  by (simp add: startsWithJson_def split: list.splits)

lemma startsWithJson_json: "startsWithJson (106 # 115 # 111 # 110 # s)"
  by (simp add: startsWithJson_def)

lemma fenced_plain: "fenced [] t = [96, 96, 96] @ (10 # t @ [10, 96, 96, 96])"
  by (simp add: fenced_def codes_fence)

lemma fenced_json: "fenced (codes ''json'') t = [96, 96, 96] @ (106 # 115 # 111 # 110 # 10 # t @ [10, 96, 96, 96])"
  by (simp add: fenced_def codes_fence codes_json)

lemma stripOpeningFence_fenced:
  assumes "info = [] \<or> info = codes ''json''"
  shows "stripOpeningFence (fenced info t) = dropWhile isWhiteSpace (10 # t @ [10, 96, 96, 96])"
proof -
  have "stripOpeningFence (fenced [] t) = dropWhile isWhiteSpace (10 # t @ [10, 96, 96, 96])"
    unfolding fenced_plain
    by (simp add: stripOpeningFence_def startsWithFence_def not_startsWithJson_newline
          del: dropWhile.simps)
  moreover have "stripOpeningFence (fenced (codes ''json'') t) = dropWhile isWhiteSpace (10 # t @ [10, 96, 96, 96])"
    unfolding fenced_json
    by (simp add: stripOpeningFence_def startsWithFence_def startsWithJson_json
          del: dropWhile.simps)
  ultimately show ?thesis using assms by blast
qed

lemma stripClosingFence_snoc:
  "stripClosingFence (s @ [96, 96, 96]) = rev (dropWhile isWhiteSpace (rev s))"
  by (simp add: stripClosingFence_def endsWithFence_def)

lemma cleanText_fenced:
  assumes "info = [] \<or> info = codes ''json''"
  shows "cleanText (fenced info t) = trim t"
proof (cases "\<forall>c \<in> set t. isWhiteSpace c")
  case True
  then have d: "dropWhile isWhiteSpace t = []" by simp
  have "stripOpeningFence (fenced info t) = [] @ [96, 96, 96]"
    using True d by (simp add: stripOpeningFence_fenced [OF assms] dropWhile_ws_fence del: dropWhile.simps)
  then show ?thesis
    unfolding cleanText_def trim_fenced
    by (simp only: stripClosingFence_snoc) (simp add: trim_def d)
next
  case False
  have "stripOpeningFence (fenced info t) = (dropWhile isWhiteSpace t @ [10]) @ [96, 96, 96]"
    using False by (simp add: stripOpeningFence_fenced [OF assms] dropWhile_ws_fence del: dropWhile.simps)
  then show ?thesis
    unfolding cleanText_def trim_fenced
    by (simp only: stripClosingFence_snoc) (simp add: trim_def isWhiteSpace_newline)
qed

lemma cleanText_unfenced:
  assumes "\<not> startsWithFence (trim t)" and "\<not> endsWithFence (trim t)"
  shows "cleanText t = trim t"
  using assms by (simp add: cleanText_def stripOpeningFence_def stripClosingFence_def)

text \<open>
  Claim C6, as the code has it. Let the payload \<open>t\<close>, once trimmed, neither start nor end
  with three back-ticks (no JSON text does). Wrapped in a fence that opens with
  \<^verbatim>\<open>```json\<close> or with \<^verbatim>\<open>```\<close> and a line feed and closes with a line feed and \<^verbatim>\<open>```\<close>, it
  parses to the same value as unwrapped, for every parser that rejects the empty text,
  as \<^verbatim>\<open>JSON.parse\<close> does.
\<close>

theorem parseResponseJSON_fenced:
  assumes "info = [] \<or> info = codes ''json''"
      and "JSON_parse [] = None"
      and "\<not> startsWithFence (trim t)" and "\<not> endsWithFence (trim t)"
  shows "parseResponseJSON JSON_parse (Some (fenced info t)) = parseResponseJSON JSON_parse (Some t)"
proof -
  have ne: "fenced info t \<noteq> []" by (simp add: fenced_def codes_fence)
  show ?thesis
  proof (cases "t = []")
    case True
    then show ?thesis
      using assms(2) ne by (simp add: parseResponseJSON_def cleanText_fenced [OF assms(1)] trim_def)
  next
    case False
    then show ?thesis
      using ne
      by (simp add: parseResponseJSON_def cleanText_fenced [OF assms(1)]
            cleanText_unfenced [OF assms(3,4)])
  qed
qed

lemma sampleParse_known:
  "sampleParse (codes ''[1]'') = Some (JArray [JNumber 1])"
  "sampleParse (codes ''{}'') = Some (JObject [])"
  "sampleParse (codes ''[{},{}]'') = Some (JArray [JObject [], JObject []])"
  "sampleParse sampleBatchText = Some sampleBatchData"
  by (simp_all add: sampleParse_def sampleBatchText_def quoted_def codes_def)

lemma sampleParse_rejects:
  "sampleParse [] = None"
  "sampleParse (codes ''oops'') = None"
  "sampleParse (96 # s) = None"
  by (simp_all add: sampleParse_def sampleBatchText_def quoted_def codes_def)

lemma cleanText_plain:
  "cleanText (codes ''[1]'') = codes ''[1]''"
  "cleanText (codes '' [1]'') = codes ''[1]''"
  "cleanText (codes ''{}'') = codes ''{}''"
  "cleanText (codes ''[{},{}]'') = codes ''[{},{}]''"
  "cleanText (codes ''oops'') = codes ''oops''"
  "cleanText sampleBatchText = sampleBatchText"
  by (simp_all add: cleanText_def trim_def stripOpeningFence_def stripClosingFence_def
        startsWithFence_def endsWithFence_def isWhiteSpace_def codes_def sampleBatchText_def quoted_def)

lemma parseResponseJSON_Some:
  "t \<noteq> [] \<Longrightarrow> cleanText t = c \<Longrightarrow>
   parseResponseJSON JSON_parse (Some t) = (case JSON_parse c of None \<Rightarrow> JNull | Some v \<Rightarrow> v)"
  by (simp add: parseResponseJSON_def)

lemma codes_not_Nil:
  "codes ''key'' \<noteq> []" "codes ''jpeg'' \<noteq> []" "codes ''[1]'' \<noteq> []" "codes '' [1]'' \<noteq> []"
  "codes ''{}'' \<noteq> []" "codes ''[{},{}]'' \<noteq> []" "codes ''oops'' \<noteq> []" "sampleBatchText \<noteq> []"
  by (simp_all add: codes_def sampleBatchText_def)

text \<open>
  Claim C6 as stated fails on a payload that is itself fenced. The payload
  \<^verbatim>\<open>```json\<close>, line feed, \<^verbatim>\<open>[1]\<close>, line feed, \<^verbatim>\<open>```\<close> parses to the array \<^verbatim>\<open>[1]\<close>: its fence is
  stripped. Wrapped in a second fence only the outer fence is stripped, what is left
  starts with a back-tick, \<^verbatim>\<open>JSON.parse\<close> rejects it and the result is \<^verbatim>\<open>null\<close>.
\<close>

theorem parseResponseJSON_fenced_counterexample:
  "parseResponseJSON sampleParse (Some (fenced (codes ''json'') (codes ''[1]''))) = JArray [JNumber 1] \<and>
   parseResponseJSON sampleParse
      (Some (fenced (codes ''json'') (fenced (codes ''json'') (codes ''[1]'')))) = JNull \<and>
   parseResponseJSON sampleParse
      (Some (fenced (codes ''json'') (fenced (codes ''json'') (codes ''[1]'')))) \<noteq>
   parseResponseJSON sampleParse (Some (fenced (codes ''json'') (codes ''[1]'')))"
proof -
  have ne: "fenced info t \<noteq> []" for info t
    by (simp add: fenced_def codes_fence)
  have inner: "cleanText (fenced (codes ''json'') (codes ''[1]'')) = codes ''[1]''"
    by (simp add: cleanText_fenced trim_def codes_def isWhiteSpace_def)
  have outer: "cleanText (fenced (codes ''json'') (fenced (codes ''json'') (codes ''[1]''))) =
               96 # 96 # 96 # codes ''json'' @ [10] @ codes ''[1]'' @ [10, 96, 96, 96]"
    by (simp add: cleanText_fenced trim_fenced) (simp add: fenced_def codes_def)
  have 1: "parseResponseJSON sampleParse (Some (fenced (codes ''json'') (codes ''[1]''))) = JArray [JNumber 1]"
    by (simp add: parseResponseJSON_Some [OF ne inner] sampleParse_known)
  have 2: "parseResponseJSON sampleParse
      (Some (fenced (codes ''json'') (fenced (codes ''json'') (codes ''[1]'')))) = JNull"
    by (simp add: parseResponseJSON_Some [OF ne outer] sampleParse_rejects)
  show ?thesis using 1 2 by simp
qed

text \<open>
  The payload \<^verbatim>\<open> [1]\<close> parses to the array \<^verbatim>\<open>[1]\<close> unwrapped and in either fence.
\<close>

theorem parseResponseJSON_fenced_witness:
  "sampleParse [] = None \<and> \<not> startsWithFence (trim (codes '' [1]'')) \<and>
   \<not> endsWithFence (trim (codes '' [1]'')) \<and>
   parseResponseJSON sampleParse (Some (codes '' [1]'')) = JArray [JNumber 1] \<and>
   parseResponseJSON sampleParse (Some (fenced (codes ''json'') (codes '' [1]''))) = JArray [JNumber 1] \<and>
   parseResponseJSON sampleParse (Some (fenced [] (codes '' [1]''))) = JArray [JNumber 1]"
proof -
  have p: "sampleParse [] = None"
    by (rule sampleParse_rejects)
  have t: "trim (codes '' [1]'') = codes ''[1]''"
    by (simp add: trim_def codes_def isWhiteSpace_def)
  have s: "\<not> startsWithFence (trim (codes '' [1]''))" "\<not> endsWithFence (trim (codes '' [1]''))"
    unfolding t by (simp_all add: startsWithFence_def endsWithFence_def codes_def)
  have u: "parseResponseJSON sampleParse (Some (codes '' [1]'')) = JArray [JNumber 1]"
    by (simp add: parseResponseJSON_Some [OF codes_not_Nil(4) cleanText_plain(2)] sampleParse_known)
  show ?thesis
    using p s u
      parseResponseJSON_fenced [where info = "codes ''json''" and JSON_parse = sampleParse and t = "codes '' [1]''"]
      parseResponseJSON_fenced [where info = "[]" and JSON_parse = sampleParse and t = "codes '' [1]''"]
    by simp
qed

subsection \<open>Identifiers are told apart by their parts\<close>

lemma decimal_not_Nil: "decimal n \<noteq> []"
  by (subst decimal.simps) simp

lemma decimal_digits: "c \<in> set (decimal n) \<Longrightarrow> 48 \<le> c \<and> c \<le> 57"
proof (induction n rule: decimal.induct)
  case (1 n)
  show ?case
  proof (cases "n < 10")
    case True
    then show ?thesis using "1.prems" by (subst (asm) decimal.simps) auto
  next
    case False
    then have "c \<in> set (decimal (n div 10)) \<or> c = 48 + n mod 10"
      using "1.prems" by (subst (asm) decimal.simps) auto
    then show ?thesis
    proof
      assume "c \<in> set (decimal (n div 10))"
      then show ?thesis using "1.IH" False by simp
    next
      assume "c = 48 + n mod 10"
      moreover have "n mod 10 < 10" by simp
      ultimately show ?thesis by linarith
    qed
  qed
qed

lemma decimal_no_dash: "45 \<notin> set (decimal n)"
  using decimal_digits [of 45 n] by auto

lemma decimal_inj: "decimal m = decimal n \<Longrightarrow> m = n"
proof (induction m arbitrary: n rule: decimal.induct)
  case (1 m)
  show ?case
  proof (cases "m < 10")
    case True
    then have m: "decimal m = [48 + m]" by (subst decimal.simps) simp
    show ?thesis
    proof (cases "n < 10")
      case True
      then have "decimal n = [48 + n]" by (subst decimal.simps) simp
      then show ?thesis using m "1.prems" by simp
    next
      case False
      then have "decimal n = decimal (n div 10) @ [48 + n mod 10]" by (subst decimal.simps) simp
      then show ?thesis using m "1.prems" decimal_not_Nil [of "n div 10"] by simp
    qed
  next
    case False
    then have m: "decimal m = decimal (m div 10) @ [48 + m mod 10]" by (subst decimal.simps) simp
    show ?thesis
    proof (cases "n < 10")
      case True
      then have "decimal n = [48 + n]" by (subst decimal.simps) simp
      then show ?thesis using m "1.prems" decimal_not_Nil [of "m div 10"] by simp
    next
      case n: False
      then have "decimal n = decimal (n div 10) @ [48 + n mod 10]" by (subst decimal.simps) simp
      then have "decimal (m div 10) = decimal (n div 10)" "m mod 10 = n mod 10"
        using m "1.prems" by simp_all
      then have "m div 10 = n div 10" "m mod 10 = n mod 10"
        using "1.IH" [of "n div 10"] False by simp_all
      then show ?thesis by (metis div_mult_mod_eq)
    qed
  qed
qed

lemma append_dash_eq:
  assumes "45 \<notin> set xs" and "45 \<notin> set ys" and "a @ 45 # xs = b @ 45 # ys"
  shows "a = b \<and> xs = ys"
  using assms
proof (induction a arbitrary: b)
  case Nil
  then show ?case by (cases b) auto
next
  case (Cons x a)
  then show ?case by (cases b) auto
qed

lemma linkId_inj:
  assumes "linkId k i t = linkId k' i' t'"
  shows "k = k' \<and> i = i' \<and> t = t'"
proof -
  let ?p = "codes ''page-''" and ?l = "codes ''-link''"
  have shape: "linkId k i t = ((?p @ k @ ?l) @ 45 # decimal i) @ 45 # decimal t" for k i t
    by (simp add: linkId_def codes_def)
  from assms have "((?p @ k @ ?l) @ 45 # decimal i) @ 45 # decimal t =
                   ((?p @ k' @ ?l) @ 45 # decimal i') @ 45 # decimal t'"
    by (simp only: shape)
  from append_dash_eq [OF decimal_no_dash decimal_no_dash this]
  have 1: "(?p @ k @ ?l) @ 45 # decimal i = (?p @ k' @ ?l) @ 45 # decimal i'" and t: "decimal t = decimal t'"
    by simp_all
  from append_dash_eq [OF decimal_no_dash decimal_no_dash 1]
  have 2: "?p @ k @ ?l = ?p @ k' @ ?l" and i: "decimal i = decimal i'"
    by simp_all
  from 2 have "k = k'" by simp
  then show ?thesis using t i decimal_inj by blast
qed

lemma mapLinks_ids:
  "mapLinks pageStr clock n xs = Inr ls \<Longrightarrow>
   map id' ls = map (\<lambda>i. linkId pageStr i (clock i)) [n ..< n + length xs]"
proof (induction xs arbitrary: n ls)
  case Nil
  then show ?case by simp
next
  case (Cons x xs)
  from Cons.prems obtain l ls' where
    l: "toIndexLink pageStr n (clock n) x = Inr l" and
    ls': "mapLinks pageStr clock (n + 1) xs = Inr ls'" and
    ls: "ls = l # ls'"
    by (auto split: sum.splits)
  have "id' l = linkId pageStr n (clock n)"
    using l by (auto simp: toIndexLink_def split: if_splits)
  moreover have "map id' ls' = map (\<lambda>i. linkId pageStr i (clock i)) [n + 1 ..< n + 1 + length xs]"
    using Cons.IH [OF ls'] .
  moreover have "[n ..< n + length (x # xs)] = n # [n + 1 ..< n + 1 + length xs]"
    using upt_conv_Cons [of n "n + length (x # xs)"] by (simp del: upt_Suc)
  ultimately show ?case
    by (simp only: ls list.map)
qed

lemma mapLinks_distinct:
  assumes "mapLinks pageStr clock n xs = Inr ls"
  shows "distinct (map id' ls)"
proof -
  have "inj_on (\<lambda>i. linkId pageStr i (clock i)) (set [n ..< n + length xs])"
    by (rule inj_onI) (use linkId_inj in blast)
  then show ?thesis
    by (simp add: mapLinks_ids [OF assms] distinct_map)
qed

lemma mapLinks_shape:
  assumes "mapLinks pageStr clock n xs = Inr ls" and "l \<in> set ls"
  shows "\<exists>i t. id' l = linkId pageStr i t"
proof -
  have "id' l \<in> set (map id' ls)" using assms(2) by simp
  then show ?thesis unfolding mapLinks_ids [OF assms(1)] by auto
qed

lemma forEachPageResult_ids:
  assumes "forEachPageResult toStr clock n result xs = Inr result'"
      and "\<forall>k ls. result k = Some ls \<longrightarrow>
             distinct (map id' ls) \<and> (\<forall>l \<in> set ls. \<exists>i t. id' l = linkId k i t)"
  shows "\<forall>k ls. result' k = Some ls \<longrightarrow>
             distinct (map id' ls) \<and> (\<forall>l \<in> set ls. \<exists>i t. id' l = linkId k i t)"
  using assms
proof (induction xs arbitrary: n result)
  case Nil
  then show ?case by simp
next
  case (Cons pageResult rest)
  let ?pageNum = "getProp pageResult (codes ''pageNumber'')"
  let ?entries = "getProp pageResult (codes ''entries'')"
  from Cons.prems(1) have nn: "\<not> nullish pageResult" by (auto split: if_splits)
  show ?case
  proof (cases "truthy ?pageNum \<and> truthy ?entries \<and> isArray ?entries")
    case False
    then have "forEachPageResult toStr clock (n + 1) result rest = Inr result'"
      using Cons.prems(1) nn by (auto simp: Let_def)
    from Cons.IH [OF this Cons.prems(2)] show ?thesis .
  next
    case True
    then obtain ls where
      m: "mapLinks (toStr ?pageNum) (clock n) 0 (elements ?entries) = Inr ls" and
      r: "forEachPageResult toStr clock (n + 1) (result(toStr ?pageNum \<mapsto> ls)) rest = Inr result'"
      using Cons.prems(1) nn by (auto simp: Let_def split: sum.splits)
    have "\<forall>k ls'. (result(toStr ?pageNum \<mapsto> ls)) k = Some ls' \<longrightarrow>
             distinct (map id' ls') \<and> (\<forall>l \<in> set ls'. \<exists>i t. id' l = linkId k i t)"
      using Cons.prems(2) mapLinks_distinct [OF m] mapLinks_shape [OF m] by auto
    from Cons.IH [OF r this] show ?thesis .
  qed
qed

text \<open>
  Claim C9. The identifiers of the entries that \<open>analyzePageForIndex\<close> returns are
  pairwise distinct. In the mapping that \<open>analyzePagesBatch\<close> returns, the identifiers
  within the list of a page are pairwise distinct, and no identifier occurs in the lists
  of two pages. This holds for any values of the clock.
\<close>

theorem detection_ids_distinct:
  "(analyzePageForIndex apiKey generateContent JSON_parse clock imageBase64 pageNumber = Inr links \<longrightarrow>
      distinct (map id' links)) \<and>
   (analyzePagesBatch apiKey generateBatch JSON_parse toStr clock2 pages' = Inr result \<longrightarrow>
      (\<forall>k ls. result k = Some ls \<longrightarrow> distinct (map id' ls)) \<and>
      (\<forall>k k' ls ls'. k \<noteq> k' \<and> result k = Some ls \<and> result k' = Some ls' \<longrightarrow>
          set (map id' ls) \<inter> set (map id' ls') = {}))"
proof (intro conjI impI)
  assume a: "analyzePageForIndex apiKey generateContent JSON_parse clock imageBase64 pageNumber = Inr links"
  show "distinct (map id' links)"
  proof (cases "links = []")
    case True
    then show ?thesis by simp
  next
    case False
    then obtain xs where "mapLinks (numberToString pageNumber) clock 0 xs = Inr links"
      using a by (auto simp: analyzePageForIndex_def Let_def split: if_splits sum.splits)
    then show ?thesis by (rule mapLinks_distinct)
  qed
next
  assume b: "analyzePagesBatch apiKey generateBatch JSON_parse toStr clock2 pages' = Inr result"
  have inv: "\<forall>k ls. result k = Some ls \<longrightarrow>
             distinct (map id' ls) \<and> (\<forall>l \<in> set ls. \<exists>i t. id' l = linkId k i t)"
  proof (cases "result = Map.empty")
    case True
    then show ?thesis by simp
  next
    case False
    then obtain xs where "forEachPageResult toStr clock2 0 Map.empty xs = Inr result"
      using b by (auto simp: analyzePagesBatch_def Let_def split: if_splits sum.splits)
    then show ?thesis by (rule forEachPageResult_ids) simp
  qed
  then show "\<forall>k ls. result k = Some ls \<longrightarrow> distinct (map id' ls)" by blast
  show "\<forall>k k' ls ls'. k \<noteq> k' \<and> result k = Some ls \<and> result k' = Some ls' \<longrightarrow>
          set (map id' ls) \<inter> set (map id' ls') = {}"
  proof (intro allI impI)
    fix k k' ls ls'
    assume h: "k \<noteq> k' \<and> result k = Some ls \<and> result k' = Some ls'"
    show "set (map id' ls) \<inter> set (map id' ls') = {}"
    proof (rule ccontr)
      assume "set (map id' ls) \<inter> set (map id' ls') \<noteq> {}"
      then obtain l l' where "l \<in> set ls" "l' \<in> set ls'" "id' l = id' l'" by auto
      moreover obtain i t where "id' l = linkId k i t" using inv h \<open>l \<in> set ls\<close> by blast
      moreover obtain i' t' where "id' l' = linkId k' i' t'" using inv h \<open>l' \<in> set ls'\<close> by blast
      ultimately have "linkId k i t = linkId k' i' t'" by simp
      then show False using linkId_inj h by blast
    qed
  qed
qed

text \<open>
  Claim C7. With an API key and a model call that returns, a response text that is
  \<^verbatim>\<open>undefined\<close>, empty, or rejected by \<^verbatim>\<open>JSON.parse\<close> after the fences are stripped makes
  \<open>analyzePageForIndex\<close> return the empty list; nothing is raised.
\<close>

theorem analyzePageForIndex_unparsable:
  assumes "apiKey \<noteq> []"
      and "generateContent imageBase64 = Inr response"
      and "response = None \<or> response = Some [] \<or> (\<exists>t. response = Some t \<and> JSON_parse (cleanText t) = None)"
  shows "analyzePageForIndex apiKey generateContent JSON_parse clock imageBase64 pageNumber = Inr []"
  using assms
  by (auto simp: analyzePageForIndex_def parseResponseJSON_def Let_def)

text \<open>
  The three cases: no text, the empty text, and the text \<^verbatim>\<open>oops\<close>.
\<close>

theorem analyzePageForIndex_unparsable_witness:
  "codes ''key'' \<noteq> [] \<and>
   sampleParse (cleanText (codes ''oops'')) = None \<and>
   analyzePageForIndex (codes ''key'') (\<lambda>image. Inr None) sampleParse (\<lambda>i. 17) (codes ''jpeg'') 5 = Inr [] \<and>
   analyzePageForIndex (codes ''key'') (\<lambda>image. Inr (Some [])) sampleParse (\<lambda>i. 17) (codes ''jpeg'') 5 = Inr [] \<and>
   analyzePageForIndex (codes ''key'') (\<lambda>image. Inr (Some (codes ''oops''))) sampleParse (\<lambda>i. 17)
      (codes ''jpeg'') 5 = Inr []"
proof -
  have k: "codes ''key'' \<noteq> []" by (rule codes_not_Nil)
  have p: "sampleParse (cleanText (codes ''oops'')) = None"
    by (simp add: cleanText_plain sampleParse_rejects)
  have 1: "analyzePageForIndex (codes ''key'') (\<lambda>image. Inr None) sampleParse (\<lambda>i. 17) (codes ''jpeg'') 5 = Inr []"
    using analyzePageForIndex_unparsable [where apiKey = "codes ''key''" and generateContent = "\<lambda>image. Inr None"
      and response = None and JSON_parse = sampleParse and ?imageBase64.0 = "codes ''jpeg''"] k
    by simp
  have 2: "analyzePageForIndex (codes ''key'') (\<lambda>image. Inr (Some [])) sampleParse (\<lambda>i. 17) (codes ''jpeg'') 5 = Inr []"
    using analyzePageForIndex_unparsable [where apiKey = "codes ''key''" and generateContent = "\<lambda>image. Inr (Some [])"
      and response = "Some []" and JSON_parse = sampleParse and ?imageBase64.0 = "codes ''jpeg''"] k
    by simp
  have 3: "analyzePageForIndex (codes ''key'') (\<lambda>image. Inr (Some (codes ''oops''))) sampleParse (\<lambda>i. 17)
      (codes ''jpeg'') 5 = Inr []"
    using analyzePageForIndex_unparsable [where apiKey = "codes ''key''"
      and generateContent = "\<lambda>image. Inr (Some (codes ''oops''))"
      and response = "Some (codes ''oops'')" and JSON_parse = sampleParse and ?imageBase64.0 = "codes ''jpeg''"] k p
    by simp
  show ?thesis using k p 1 2 3 by blast
qed

text \<open>
  Claim C10. A response text that parses to a value that is not an array makes
  \<open>analyzePageForIndex\<close> return the empty list, which is also what it returns when the
  parser rejects the text.
\<close>

theorem analyzePageForIndex_not_array:
  assumes "apiKey \<noteq> []"
      and "generateContent imageBase64 = Inr (Some t)"
      and "JSON_parse (cleanText t) = Some v"
      and "\<not> isArray v"
  shows "analyzePageForIndex apiKey generateContent JSON_parse clock imageBase64 pageNumber = Inr [] \<and>
         analyzePageForIndex apiKey generateContent JSON_parse clock imageBase64 pageNumber =
         analyzePageForIndex apiKey generateContent (\<lambda>s. None) clock imageBase64 pageNumber"
  using assms
  by (auto simp: analyzePageForIndex_def parseResponseJSON_def Let_def)

text \<open>
  The response \<^verbatim>\<open>{}\<close> parses to an object, and the result is the empty list.
\<close>

theorem analyzePageForIndex_not_array_witness:
  "codes ''key'' \<noteq> [] \<and> sampleParse (cleanText (codes ''{}'')) = Some (JObject []) \<and>
   \<not> isArray (JObject []) \<and>
   analyzePageForIndex (codes ''key'') (\<lambda>image. Inr (Some (codes ''{}''))) sampleParse (\<lambda>i. 17)
      (codes ''jpeg'') 5 = Inr []"
proof -
  have k: "codes ''key'' \<noteq> []" by (rule codes_not_Nil)
  have p: "sampleParse (cleanText (codes ''{}'')) = Some (JObject [])"
    by (simp add: cleanText_plain sampleParse_known)
  have a: "\<not> isArray (JObject [])" by simp
  have "analyzePageForIndex (codes ''key'') (\<lambda>image. Inr (Some (codes ''{}''))) sampleParse (\<lambda>i. 17)
      (codes ''jpeg'') 5 = Inr []"
    using analyzePageForIndex_not_array [where apiKey = "codes ''key''"
      and generateContent = "\<lambda>image. Inr (Some (codes ''{}''))" and t = "codes ''{}''"
      and JSON_parse = sampleParse and ?imageBase64.0 = "codes ''jpeg''" and v = "JObject []"] k p a
    by simp
  then show ?thesis using k p a by blast
qed

text \<open>
  Two entries on page 5, and a batch with two entries on page 1 and one on page 2, all
  made in the same millisecond.
\<close>

theorem detection_ids_distinct_witness:
  "(\<exists>links. analyzePageForIndex (codes ''key'') (\<lambda>image. Inr (Some (codes ''[{},{}]''))) sampleParse
        (\<lambda>i. 1700000000000) (codes ''jpeg'') 5 = Inr links \<and>
      map id' links = [codes ''page-5-link-0-1700000000000'', codes ''page-5-link-1-1700000000000''] \<and>
      distinct (map id' links)) \<and>
   (\<exists>result ls1 ls2. analyzePagesBatch (codes ''key'') (\<lambda>ps. Inr (Some sampleBatchText)) sampleParse
        sampleToString (\<lambda>n i. 1700000000000) [(1, codes ''jpeg''), (2, codes ''jpeg'')] = Inr result \<and>
      result (codes ''1'') = Some ls1 \<and> result (codes ''2'') = Some ls2 \<and>
      map id' ls1 = [codes ''page-1-link-0-1700000000000'', codes ''page-1-link-1-1700000000000''] \<and>
      map id' ls2 = [codes ''page-2-link-0-1700000000000''] \<and>
      distinct (map id' ls1) \<and> set (map id' ls1) \<inter> set (map id' ls2) = {})"
proof -
  have p: "parseResponseJSON sampleParse (Some (codes ''[{},{}]'')) = JArray [JObject [], JObject []]"
    by (simp add: parseResponseJSON_Some [OF codes_not_Nil(6) cleanText_plain(4)] sampleParse_known)
  have a0: "analyzePageForIndex (codes ''key'') (\<lambda>image. Inr (Some (codes ''[{},{}]''))) sampleParse
        (\<lambda>i. 1700000000000) (codes ''jpeg'') 5 =
        mapLinks (numberToString 5) (\<lambda>i. 1700000000000) 0 [JObject [], JObject []]"
    by (simp add: analyzePageForIndex_def p codes_not_Nil)
  have "\<exists>links. analyzePageForIndex (codes ''key'') (\<lambda>image. Inr (Some (codes ''[{},{}]''))) sampleParse
        (\<lambda>i. 1700000000000) (codes ''jpeg'') 5 = Inr links \<and>
      map id' links = [codes ''page-5-link-0-1700000000000'', codes ''page-5-link-1-1700000000000'']"
    unfolding a0
    by (simp add: toIndexLink_def linkId_def numberToString_def decimal.simps codes_def)
  then obtain links where
    a: "analyzePageForIndex (codes ''key'') (\<lambda>image. Inr (Some (codes ''[{},{}]''))) sampleParse
        (\<lambda>i. 1700000000000) (codes ''jpeg'') 5 = Inr links" and
    i: "map id' links = [codes ''page-5-link-0-1700000000000'', codes ''page-5-link-1-1700000000000'']"
    by (elim exE conjE) (rule that)
  have bp: "parseResponseJSON sampleParse (Some sampleBatchText) = sampleBatchData"
    by (simp add: parseResponseJSON_Some [OF codes_not_Nil(8) cleanText_plain(6)] sampleParse_known)
  have b0: "analyzePagesBatch (codes ''key'') (\<lambda>ps. Inr (Some sampleBatchText)) sampleParse
        sampleToString (\<lambda>n i. 1700000000000) [(1, codes ''jpeg''), (2, codes ''jpeg'')] =
        forEachPageResult sampleToString (\<lambda>n i. 1700000000000) 0 Map.empty (elements sampleBatchData)"
    by (simp add: analyzePagesBatch_def bp codes_not_Nil) (simp add: sampleBatchData_def)
  have "\<exists>result ls1 ls2. analyzePagesBatch (codes ''key'') (\<lambda>ps. Inr (Some sampleBatchText)) sampleParse
        sampleToString (\<lambda>n i. 1700000000000) [(1, codes ''jpeg''), (2, codes ''jpeg'')] = Inr result \<and>
      result (codes ''1'') = Some ls1 \<and> result (codes ''2'') = Some ls2 \<and>
      map id' ls1 = [codes ''page-1-link-0-1700000000000'', codes ''page-1-link-1-1700000000000''] \<and>
      map id' ls2 = [codes ''page-2-link-0-1700000000000'']"
    unfolding b0
    by (simp add: sampleBatchData_def sampleToString_def toIndexLink_def linkId_def numberToString_def
          decimal.simps codes_def)
  then obtain result ls1 ls2 where
    b: "analyzePagesBatch (codes ''key'') (\<lambda>ps. Inr (Some sampleBatchText)) sampleParse
        sampleToString (\<lambda>n i. 1700000000000) [(1, codes ''jpeg''), (2, codes ''jpeg'')] = Inr result" and
    r: "result (codes ''1'') = Some ls1" "result (codes ''2'') = Some ls2" and
    j: "map id' ls1 = [codes ''page-1-link-0-1700000000000'', codes ''page-1-link-1-1700000000000'']"
       "map id' ls2 = [codes ''page-2-link-0-1700000000000'']"
    by (elim exE conjE) (rule that)
  have ne: "codes ''1'' \<noteq> codes ''2''" by (simp add: codes_def)
  note t = detection_ids_distinct [of "codes ''key''" "\<lambda>image. Inr (Some (codes ''[{},{}]''))" sampleParse
     "\<lambda>i. 1700000000000" "codes ''jpeg''" 5 links "\<lambda>ps. Inr (Some sampleBatchText)" sampleToString
     "\<lambda>n i. 1700000000000" "[(1, codes ''jpeg''), (2, codes ''jpeg'')]" result]
  have d1: "distinct (map id' links)" using t a by blast
  have d2: "distinct (map id' ls1)" using t b r by blast
  have d3: "set (map id' ls1) \<inter> set (map id' ls2) = {}" using t b r ne by blast
  from a i d1 have first: "\<exists>links. analyzePageForIndex (codes ''key'') (\<lambda>image. Inr (Some (codes ''[{},{}]''))) sampleParse
        (\<lambda>i. 1700000000000) (codes ''jpeg'') 5 = Inr links \<and>
      map id' links = [codes ''page-5-link-0-1700000000000'', codes ''page-5-link-1-1700000000000''] \<and>
      distinct (map id' links)"
    by (intro exI [of _ links] conjI)
  from b r j d2 d3 have second: "\<exists>result ls1 ls2. analyzePagesBatch (codes ''key'') (\<lambda>ps. Inr (Some sampleBatchText)) sampleParse
        sampleToString (\<lambda>n i. 1700000000000) [(1, codes ''jpeg''), (2, codes ''jpeg'')] = Inr result \<and>
      result (codes ''1'') = Some ls1 \<and> result (codes ''2'') = Some ls2 \<and>
      map id' ls1 = [codes ''page-1-link-0-1700000000000'', codes ''page-1-link-1-1700000000000''] \<and>
      map id' ls2 = [codes ''page-2-link-0-1700000000000''] \<and>
      distinct (map id' ls1) \<and> set (map id' ls1) \<inter> set (map id' ls2) = {}"
    by (intro exI [of _ result] exI [of _ ls1] exI [of _ ls2] conjI)
  show ?thesis using first second by (rule conjI)
qed

end
